theory Spec2Isabelle
  imports Complex_Main
begin

section \<open>Conv2D and MaxPool2D of core/layers.py\<close>

text \<open>
  The two convolution-family layers of \<^verbatim>\<open>core/layers.py\<close> and their padding
  calculators.
  \<^item> Python exceptions are values of \<open>py_error\<close>; a function that can raise returns
    \<open>py_error + 'a\<close>, and a method that also changes the layer returns the layer as the
    call leaves it.
  \<^item> Array elements are real numbers, the exact-arithmetic reading of numpy's float64;
    \<^verbatim>\<open>int((padded - k) / s + 1)\<close> is a division of reals followed by truncation.
  \<^item> A rank-4 array is a four-fold nested list indexed \<open>[n][h][w][c]\<close>. A nested list
    keeps no shape of its own, so the shape is read off the first entries, and the
    properties below are about arrays whose axes all have at least one entry.
  \<^item> Kernel sizes, strides and pool sizes are counts, hence natural numbers. The padding
    calculators are static functions on Python integers (\<open>//\<close> is \<open>div\<close> and \<open>%\<close> is
    \<open>mod\<close> on \<open>int\<close>), and the pad lists they return are lists of integers.
  \<^item> The numpy functions that the layers call (\<^verbatim>\<open>np.pad\<close>, \<^verbatim>\<open>reshape\<close>,
    \<^verbatim>\<open>@\<close>, \<^verbatim>\<open>np.argmax\<close>, slicing and broadcasting) are written out on
    nested lists, with the shape errors they raise.
  \<^item> The fields of the two cache dictionaries carry the prefixes \<open>cc_\<close> (Conv2D) and
    \<open>pc_\<close> (MaxPool2D), the fields of the pooling layer the prefix \<open>mp_\<close> where the name
    is taken already.
\<close>

datatype py_error =
  AssertionError | TypeError | ValueError | IndexError | KeyError | ZeroDivisionError

type_synonym matrix = "real list list"
type_synonym tensor4 = "real list list list list"

subsection \<open>Padding calculators\<close>

text \<open>
  \<^verbatim>\<open>Conv2D._get_padding(ks, mode)\<close>. The result carries what the call prints and the
  value it returns; \<open>None\<close> is Python's \<open>None\<close>.
\<close>

definition Conv2D_get_padding :: "int list \<Rightarrow> string \<Rightarrow> py_error + (string list \<times> int list option)" where
  "Conv2D_get_padding ks mode =
     (if mode = ''FULL'' then
        (if length ks < 2 then Inl IndexError
         else Inr ([], Some [ks ! 0 - 1, ks ! 1 - 1, ks ! 0 - 1, ks ! 1 - 1]))
      else if mode = ''VALID'' then Inr ([], Some [0, 0, 0, 0])
      else if mode = ''SAME'' then
        (if length ks < 2 then Inl IndexError
         else
           (let pad = [(ks ! 0 - 1) div 2, (ks ! 0 - 1) div 2,
                       (ks ! 1 - 1) div 2, (ks ! 1 - 1) div 2];
                pad = (if ks ! 0 mod 2 = 0 then pad[1 := pad ! 1 + 1] else pad);
                pad = (if ks ! 1 mod 2 = 0 then pad[3 := pad ! 3 + 1] else pad)
            in Inr ([], Some pad)))
      else Inr ([''Invalid mode''], None))"

text \<open>\<^verbatim>\<open>MaxPool2D._get_padding_1d(input_size, pool_size, stride, mode)\<close>.\<close>

definition MaxPool2D_get_padding_1d :: "int \<Rightarrow> int \<Rightarrow> int \<Rightarrow> string \<Rightarrow> py_error + int list" where
  "MaxPool2D_get_padding_1d input_size pool_size stride mode =
     (if mode = ''SAME'' \<and> stride = 0 then Inl ZeroDivisionError
      else
        (let n_pad =
               (if mode = ''SAME'' then
                  (let r = input_size mod stride
                   in if r = 0 then max (pool_size - stride) 0
                      else max pool_size stride - r)
                else 0);
             half = n_pad div 2
         in Inr (if n_pad mod 2 = 0 then [half, half] else [half, half + 1])))"

text \<open>\<^verbatim>\<open>MaxPool2D._get_padding(input_size, pool_size, stride, mode)\<close>: the two axes, concatenated.\<close>

definition MaxPool2D_get_padding :: "int list \<Rightarrow> int list \<Rightarrow> int list \<Rightarrow> string \<Rightarrow> py_error + int list" where
  "MaxPool2D_get_padding input_size pool_size stride mode =
     (if length input_size < 1 \<or> length pool_size < 1 \<or> length stride < 1 then Inl IndexError
      else case MaxPool2D_get_padding_1d (input_size ! 0) (pool_size ! 0) (stride ! 0) mode of
        Inl e \<Rightarrow> Inl e
      | Inr h_pad \<Rightarrow>
          (if length input_size < 2 \<or> length pool_size < 2 \<or> length stride < 2 then Inl IndexError
           else case MaxPool2D_get_padding_1d (input_size ! 1) (pool_size ! 1) (stride ! 1) mode of
             Inl e \<Rightarrow> Inl e
           | Inr w_pad \<Rightarrow> Inr (h_pad @ w_pad)))"

subsection \<open>Arrays as nested lists\<close>

text \<open>
  \<open>shape4\<close> reads the shape of a nested list off its first entries; \<open>has_shape4\<close> says
  that a nested list is rectangular with the given shape, as every numpy array is.
\<close>

definition first :: "'a list list \<Rightarrow> 'a list" where
  "first xs = (case xs of [] \<Rightarrow> [] | x # _ \<Rightarrow> x)"

definition shape4 :: "'a list list list list \<Rightarrow> nat \<times> nat \<times> nat \<times> nat" where
  "shape4 t = (length t, length (first t), length (first (first t)),
               length (first (first (first t))))"

definition has_shape2 :: "nat \<Rightarrow> nat \<Rightarrow> 'a list list \<Rightarrow> bool" where
  "has_shape2 r c m = (length m = r \<and> list_all (\<lambda>row. length row = c) m)"

definition has_shape4 :: "nat \<Rightarrow> nat \<Rightarrow> nat \<Rightarrow> nat \<Rightarrow> 'a list list list list \<Rightarrow> bool" where
  "has_shape4 n h w c t =
     (length t = n \<and>
      list_all (\<lambda>img. length img = h \<and>
        list_all (\<lambda>row. length row = w \<and> list_all (\<lambda>px. length px = c) row) img) t)"

definition flatten4 :: "'a list list list list \<Rightarrow> 'a list" where
  "flatten4 t = concat (concat (concat t))"

text \<open>\<open>rows_of cnt len xs\<close> cuts the row-major data \<open>xs\<close> into \<open>cnt\<close> rows of length \<open>len\<close>.\<close>

definition rows_of :: "nat \<Rightarrow> nat \<Rightarrow> 'a list \<Rightarrow> 'a list list" where
  "rows_of cnt len xs = map (\<lambda>i. take len (drop (i * len) xs)) [0..<cnt]"

text \<open>\<^verbatim>\<open>a.reshape(-1, len)\<close> on the row-major data of \<open>a\<close>.\<close>

definition reshape_cols :: "nat \<Rightarrow> 'a list \<Rightarrow> py_error + 'a list list" where
  "reshape_cols len xs =
     (if len = 0 \<or> length xs mod len \<noteq> 0 then Inl ValueError
      else Inr (rows_of (length xs div len) len xs))"

text \<open>\<^verbatim>\<open>a.reshape((cnt, -1))\<close> on the row-major data of \<open>a\<close>.\<close>

definition reshape_rows :: "nat \<Rightarrow> 'a list \<Rightarrow> py_error + 'a list list" where
  "reshape_rows cnt xs =
     (if cnt = 0 \<or> length xs mod cnt \<noteq> 0 then Inl ValueError
      else Inr (rows_of cnt (length xs div cnt) xs))"

text \<open>\<^verbatim>\<open>a.reshape((d0, d1, d2, d3))\<close> on the row-major data of \<open>a\<close>.\<close>

definition reshape4 :: "int \<Rightarrow> int \<Rightarrow> int \<Rightarrow> int \<Rightarrow> 'a list \<Rightarrow> py_error + 'a list list list list" where
  "reshape4 d0 d1 d2 d3 xs =
     (if d0 < 0 \<or> d1 < 0 \<or> d2 < 0 \<or> d3 < 0 \<or> int (length xs) \<noteq> d0 * d1 * d2 * d3
      then Inl ValueError
      else Inr (rows_of (nat d0) (nat d1)
                 (rows_of (nat d0 * nat d1) (nat d2)
                   (rows_of (nat d0 * nat d1 * nat d2) (nat d3) xs))))"

text \<open>A Python slice \<^verbatim>\<open>xs[lo:hi]\<close>, negative bounds counting from the end.\<close>

definition py_index :: "int \<Rightarrow> nat \<Rightarrow> nat" where
  "py_index i len = (if i < 0 then nat (max (i + int len) 0) else min (nat i) len)"

definition py_slice :: "int \<Rightarrow> int \<Rightarrow> 'a list \<Rightarrow> 'a list" where
  "py_slice lo hi xs =
     (let a = py_index lo (length xs); b = py_index hi (length xs)
      in take (b - a) (drop a xs))"

text \<open>\<^verbatim>\<open>range(0, stop, step)\<close> for a positive step.\<close>

definition py_range :: "int \<Rightarrow> nat \<Rightarrow> nat list" where
  "py_range stop step = map (\<lambda>i. i * step) [0..<nat ((stop + int step - 1) div int step)]"

text \<open>Python's \<^verbatim>\<open>int(x)\<close> on a float: truncation towards zero.\<close>

definition py_int :: "real \<Rightarrow> int" where
  "py_int x = (if 0 \<le> x then \<lfloor>x\<rfloor> else \<lceil>x\<rceil>)"

text \<open>Sequencing of computations that can raise.\<close>

definition bindE :: "'e + 'a \<Rightarrow> ('a \<Rightarrow> 'e + 'b) \<Rightarrow> 'e + 'b" where
  "bindE m f = (case m of Inl e \<Rightarrow> Inl e | Inr x \<Rightarrow> f x)"

fun mapE :: "('a \<Rightarrow> 'e + 'b) \<Rightarrow> 'a list \<Rightarrow> 'e + 'b list" where
  "mapE f [] = Inr []"
| "mapE f (x # xs) =
     (case f x of Inl e \<Rightarrow> Inl e
      | Inr y \<Rightarrow> (case mapE f xs of Inl e \<Rightarrow> Inl e | Inr ys \<Rightarrow> Inr (y # ys)))"

fun foldE :: "('s \<Rightarrow> 'a \<Rightarrow> 'e + 's) \<Rightarrow> 's \<Rightarrow> 'a list \<Rightarrow> 'e + 's" where
  "foldE f s [] = Inr s"
| "foldE f s (x # xs) = (case f s x of Inl e \<Rightarrow> Inl e | Inr s' \<Rightarrow> foldE f s' xs)"

text \<open>
  \<^verbatim>\<open>np.pad(a, ((0,0), (p0,p1), (p2,p3), (0,0)), mode=...)\<close>: a negative width and, in edge
  mode, extending an empty axis raise ValueError.
\<close>

definition np_pad_edge :: "int list \<Rightarrow> 'a list list list list \<Rightarrow> py_error + 'a list list list list" where
  "np_pad_edge pad a =
     (if length pad < 4 then Inl IndexError
      else if pad ! 0 < 0 \<or> pad ! 1 < 0 \<or> pad ! 2 < 0 \<or> pad ! 3 < 0 then Inl ValueError
      else
        (let (n, h, w, c) = shape4 a
         in if (h = 0 \<and> 0 < pad ! 0 + pad ! 1) \<or> (w = 0 \<and> 0 < pad ! 2 + pad ! 3)
            then Inl ValueError
            else Inr (map (\<lambda>img.
                   (let rows = map (\<lambda>row. replicate (nat (pad ! 2)) (hd row) @ row @
                                            replicate (nat (pad ! 3)) (last row)) img
                    in replicate (nat (pad ! 0)) (hd rows) @ rows @
                       replicate (nat (pad ! 1)) (last rows))) a)))"

definition np_pad_constant :: "int list \<Rightarrow> tensor4 \<Rightarrow> py_error + tensor4" where
  "np_pad_constant pad a =
     (if length pad < 4 then Inl IndexError
      else if pad ! 0 < 0 \<or> pad ! 1 < 0 \<or> pad ! 2 < 0 \<or> pad ! 3 < 0 then Inl ValueError
      else
        (let (n, h, w, c) = shape4 a;
             zpx = replicate c 0;
             zrow = replicate (nat (pad ! 2) + w + nat (pad ! 3)) zpx
         in Inr (map (\<lambda>img.
                   replicate (nat (pad ! 0)) zrow @
                   map (\<lambda>row. replicate (nat (pad ! 2)) zpx @ row @
                               replicate (nat (pad ! 3)) zpx) img @
                   replicate (nat (pad ! 1)) zrow) a)))"

text \<open>\<^verbatim>\<open>np.zeros(shape=(n, h, w, c))\<close>.\<close>

definition np_zeros4 :: "nat \<Rightarrow> nat \<Rightarrow> nat \<Rightarrow> nat \<Rightarrow> tensor4" where
  "np_zeros4 n h w c = replicate n (replicate h (replicate w (replicate c 0)))"

text \<open>\<^verbatim>\<open>a.T\<close> of a matrix and the matrix product \<^verbatim>\<open>a @ b\<close>, of two matrices and of a
  rank-4 array with a matrix (numpy multiplies along the last axis).\<close>

definition transpose_m :: "matrix \<Rightarrow> matrix" where
  "transpose_m a = map (\<lambda>j. map (\<lambda>r. r ! j) a) [0..<length (first a)]"

definition vecmat :: "real list \<Rightarrow> matrix \<Rightarrow> real list" where
  "vecmat v b = map (\<lambda>j. sum_list (map (\<lambda>k. v ! k * b ! k ! j) [0..<length b])) [0..<length (first b)]"

definition matmul :: "matrix \<Rightarrow> matrix \<Rightarrow> py_error + matrix" where
  "matmul a b =
     (if list_all (\<lambda>r. length r = length b) a then Inr (map (\<lambda>r. vecmat r b) a)
      else Inl ValueError)"

definition matmul4 :: "tensor4 \<Rightarrow> matrix \<Rightarrow> py_error + tensor4" where
  "matmul4 a b =
     (if list_all (list_all (list_all (\<lambda>v. length v = length b))) a
      then Inr (map (map (map (\<lambda>v. vecmat v b))) a)
      else Inl ValueError)"

text \<open>\<^verbatim>\<open>np.sum(a, axis=(0, 1, 2))\<close>.\<close>

definition sum_axes012 :: "tensor4 \<Rightarrow> real list" where
  "sum_axes012 a =
     (let (n, h, w, c) = shape4 a
      in map (\<lambda>k. sum_list (map (\<lambda>px. px ! k) (concat (concat a)))) [0..<c])"

text \<open>
  An update of the block \<^verbatim>\<open>buf[:, col:col+k_h, row:row+k_w, :]\<close> that lies inside the
  buffer: \<open>f\<close> combines the old entry with the entry of the patch.
\<close>

definition map_range :: "nat \<Rightarrow> nat \<Rightarrow> (nat \<Rightarrow> 'a \<Rightarrow> 'a) \<Rightarrow> 'a list \<Rightarrow> 'a list" where
  "map_range lo len f xs =
     map (\<lambda>i. if lo \<le> i \<and> i < lo + len then f (i - lo) (xs ! i) else xs ! i) [0..<length xs]"

definition update_region ::
  "(real \<Rightarrow> real \<Rightarrow> real) \<Rightarrow> nat \<Rightarrow> nat \<Rightarrow> nat \<Rightarrow> nat \<Rightarrow> tensor4 \<Rightarrow> tensor4 \<Rightarrow> tensor4" where
  "update_region f col k_h row k_w buf patch =
     map (\<lambda>n. map_range col k_h
                (\<lambda>a. map_range row k_w (\<lambda>b px. map2 f px (patch ! n ! a ! b)))
                (buf ! n)) [0..<length buf]"

subsection \<open>Conv2D\<close>

text \<open>
  The cache dictionary written by \<^verbatim>\<open>Conv2D.forward\<close> and the layer object. The
  initializers are callables defined outside this file of the repository; they are fields
  of the layer, and the parameters they return are a rank-4 kernel and a rank-1 bias.
\<close>

record conv_cache =
  cc_in_n :: nat
  cc_in_img_size :: "nat \<times> nat \<times> nat"
  cc_kernel_size :: "nat \<times> nat \<times> nat"
  cc_stride :: "nat \<times> nat"
  cc_pad :: "int list"
  cc_pad_img_size :: "nat \<times> nat \<times> nat"
  cc_out_img_size :: "int \<times> int \<times> nat"
  cc_X_matrix :: matrix
  cc_W_matrix :: matrix

record conv2d =
  padding_mode :: string
  kernel :: "nat list"
  stride :: "nat list"
  w_init :: "nat list \<Rightarrow> tensor4"
  b_init :: "nat \<Rightarrow> real list"
  is_init :: bool
  params_w :: "tensor4 option"
  params_b :: "real list option"
  grads_w :: "tensor4 option"
  grads_b :: "real list option"
  cache :: "conv_cache option"

text \<open>\<^verbatim>\<open>Conv2D.__init__\<close>: the three assertions, then the fields.\<close>

definition Conv2D_init ::
  "nat list \<Rightarrow> nat list \<Rightarrow> string \<Rightarrow> (nat list \<Rightarrow> tensor4) \<Rightarrow> (nat \<Rightarrow> real list) \<Rightarrow> py_error + conv2d" where
  "Conv2D_init kernel_arg stride_arg padding w b =
     (if length kernel_arg \<noteq> 4 then Inl AssertionError
      else if length stride_arg \<noteq> 2 then Inl AssertionError
      else if padding \<notin> set [''FULL'', ''SAME'', ''VALID''] then Inl AssertionError
      else Inr \<lparr>padding_mode = padding, kernel = kernel_arg, stride = stride_arg,
                w_init = w, b_init = b, is_init = False,
                params_w = None, params_b = None, grads_w = None, grads_b = None,
                cache = None\<rparr>)"

text \<open>\<^verbatim>\<open>Conv2D._init_parameters\<close>; \<^verbatim>\<open>self.kernel[-1]\<close> raises on an empty kernel list.\<close>

definition Conv2D_init_parameters :: "conv2d \<Rightarrow> conv2d \<times> (py_error + unit)" where
  "Conv2D_init_parameters self =
     (let self = self\<lparr>params_w := Some (w_init self (kernel self))\<rparr>
      in if kernel self = [] then (self, Inl IndexError)
         else (self\<lparr>params_b := Some (b_init self (last (kernel self))), is_init := True\<rparr>,
               Inr ()))"

text \<open>
  The patch loops of \<^verbatim>\<open>Conv2D.forward\<close>: \<open>patches[i][j]\<close> is the window at the
  \<open>i\<close>-th row offset and the \<open>j\<close>-th column offset, reshaped to rows of length \<open>ker_len\<close>.
\<close>

definition Conv2D_patches ::
  "tensor4 \<Rightarrow> nat \<Rightarrow> nat \<Rightarrow> nat \<Rightarrow> nat \<Rightarrow> nat \<Rightarrow> py_error + matrix list list" where
  "Conv2D_patches padded k_h k_w s_h s_w ker_len =
     (let (padded_n, padded_h, padded_w, padded_c) = shape4 padded
      in mapE (\<lambda>row.
           mapE (\<lambda>col.
             reshape_cols ker_len
               (flatten4 (map (\<lambda>img. map (py_slice (int col) (int col + int k_w))
                                        (py_slice (int row) (int row + int k_h) img)) padded)))
             (py_range (int padded_w - int k_w + 1) s_w))
           (py_range (int padded_h - int k_h + 1) s_h))"

text \<open>
  \<^verbatim>\<open>np.asarray(patches).transpose([2, 0, 1, 3]).reshape((-1, ker_len))\<close>: the rows in
  the order batch, row offset, column offset. An empty list of patches has no axis 2.
\<close>

definition Conv2D_X_matrix :: "matrix list list \<Rightarrow> py_error + matrix" where
  "Conv2D_X_matrix patches =
     (if patches = [] \<or> first patches = [] then Inl ValueError
      else Inr (concat (map (\<lambda>n. concat (map (\<lambda>row_patches. map (\<lambda>m. m ! n) row_patches) patches))
                         [0..<length (first (first patches))])))"

text \<open>
  The body of \<^verbatim>\<open>Conv2D.forward\<close> from the unpacking of the kernel size to the
  cache: padding, the patch matrix, the product with the flattened kernel. It returns the
  cache and the outputs before the bias is added.
\<close>

definition Conv2D_forward_sized ::
  "conv2d \<Rightarrow> tensor4 \<Rightarrow> nat \<Rightarrow> nat \<Rightarrow> nat \<Rightarrow> nat \<Rightarrow> int list \<Rightarrow> tensor4 \<Rightarrow> tensor4 \<Rightarrow>
   py_error + (conv_cache \<times> tensor4)" where
  "Conv2D_forward_sized self inputs k_h k_w s_h s_w pad padded kernel_w =
     (let (in_n, in_h, in_w, in_c) = shape4 inputs;
          (padded_n, padded_h, padded_w, padded_c) = shape4 padded;
          out_h = py_int (real_of_int (int padded_h - int k_h) / real s_h + 1);
          out_w = py_int (real_of_int (int padded_w - int k_w) / real s_w + 1);
          out_c = last (kernel self);
          (w0, w1, w2, w3) = shape4 kernel_w;
          ker_len = w0 * w1 * w2
      in bindE (Conv2D_patches padded k_h k_w s_h s_w ker_len) (\<lambda>patches.
         bindE (Conv2D_X_matrix patches) (\<lambda>X_matrix.
         bindE (reshape_rows ker_len (flatten4 kernel_w)) (\<lambda>W_matrix.
         bindE (matmul X_matrix W_matrix) (\<lambda>prod.
         bindE (reshape4 (int in_n) out_h out_w (int out_c) (concat prod)) (\<lambda>outputs.
           Inr (\<lparr>cc_in_n = in_n,
                 cc_in_img_size = (in_h, in_w, in_c),
                 cc_kernel_size = (k_h, k_w, in_c),
                 cc_stride = (s_h, s_w),
                 cc_pad = pad,
                 cc_pad_img_size = (padded_h, padded_w, in_c),
                 cc_out_img_size = (out_h, out_w, out_c),
                 cc_X_matrix = X_matrix,
                 cc_W_matrix = W_matrix\<rparr>,
                outputs)))))))"

definition Conv2D_forward_body :: "conv2d \<Rightarrow> tensor4 \<Rightarrow> py_error + (conv_cache \<times> tensor4)" where
  "Conv2D_forward_body self inputs =
     (case take 2 (kernel self) of
        [k_h, k_w] \<Rightarrow>
          (case stride self of
             [s_h, s_w] \<Rightarrow>
               (case Conv2D_get_padding [int k_h, int k_w] (padding_mode self) of
                  Inl e \<Rightarrow> Inl e
                | Inr (printed, None) \<Rightarrow> Inl TypeError
                | Inr (printed, Some pad) \<Rightarrow>
                    bindE (np_pad_edge pad inputs) (\<lambda>padded.
                      if s_h = 0 \<or> s_w = 0 then Inl ZeroDivisionError
                      else (case params_w self of
                              None \<Rightarrow> Inl KeyError
                            | Some kernel_w \<Rightarrow>
                                Conv2D_forward_sized self inputs k_h k_w s_h s_w pad padded kernel_w)))
           | _ \<Rightarrow> Inl ValueError)
      | _ \<Rightarrow> Inl ValueError)"

text \<open>\<^verbatim>\<open>outputs += self.params["b"]\<close>: a bias of length \<open>out_c\<close> or of length 1 is broadcast.\<close>

definition add_bias :: "tensor4 \<Rightarrow> real list \<Rightarrow> py_error + tensor4" where
  "add_bias outputs b =
     (let (n, h, w, c) = shape4 outputs
      in if length b = c then Inr (map (map (map (\<lambda>px. map2 (+) px b))) outputs)
         else if length b = 1 then Inr (map (map (map (map (\<lambda>v. v + b ! 0)))) outputs)
         else Inl ValueError)"

text \<open>
  \<^verbatim>\<open>Conv2D.forward\<close>: lazy initialization, the body, the cache assignment and the bias.
  The layer is returned as the call leaves it, also when the call raises.
\<close>

definition Conv2D_forward :: "conv2d \<Rightarrow> tensor4 \<Rightarrow> conv2d \<times> (py_error + tensor4)" where
  "Conv2D_forward self inputs =
     (case (if is_init self then (self, Inr ()) else Conv2D_init_parameters self) of
        (self, Inl e) \<Rightarrow> (self, Inl e)
      | (self, Inr u) \<Rightarrow>
          (case Conv2D_forward_body self inputs of
             Inl e \<Rightarrow> (self, Inl e)
           | Inr (c, outputs) \<Rightarrow>
               (let self = self\<lparr>cache := Some c\<rparr>
                in case params_b self of
                     None \<Rightarrow> (self, Inl KeyError)
                   | Some b \<Rightarrow> (self, add_bias outputs b))))"

text \<open>
  The scatter loop of \<^verbatim>\<open>Conv2D.backward\<close>: for the \<open>i\<close>-th row offset and the
  \<open>j\<close>-th column offset, the slice \<^verbatim>\<open>d_X_matrix[:, i, j, :]\<close> is reshaped to
  \<open>(in_n, k_h, k_w, in_c)\<close> and added to the block of \<open>d_in\<close> that starts there. The block
  lies inside \<open>d_in\<close> because the offsets stop at \<open>padded - k\<close>.
\<close>

definition Conv2D_scatter_step ::
  "nat \<Rightarrow> nat \<Rightarrow> nat \<Rightarrow> nat \<Rightarrow> tensor4 \<Rightarrow> nat \<times> nat \<Rightarrow> tensor4 \<Rightarrow> nat \<times> nat \<Rightarrow> py_error + tensor4" where
  "Conv2D_scatter_step in_n k_h k_w in_c d_X_matrix icol d_in jrow =
     (let (i, col) = icol; (j, row) = jrow;
          (x0, x1, x2, x3) = shape4 d_X_matrix
      in if x1 \<le> i \<or> x2 \<le> j then Inl IndexError
         else bindE (reshape4 (int in_n) (int k_h) (int k_w) (int in_c)
                       (concat (map (\<lambda>img. img ! i ! j) d_X_matrix)))
                (\<lambda>patch. Inr (update_region (+) col k_h row k_w d_in patch)))"

definition Conv2D_scatter ::
  "nat \<Rightarrow> nat \<Rightarrow> nat \<Rightarrow> nat \<Rightarrow> tensor4 \<Rightarrow> nat list \<Rightarrow> nat list \<Rightarrow> tensor4 \<Rightarrow> py_error + tensor4" where
  "Conv2D_scatter in_n k_h k_w in_c d_X_matrix cols rows d_in =
     foldE (\<lambda>d_in icol.
              foldE (Conv2D_scatter_step in_n k_h k_w in_c d_X_matrix icol) d_in
                (enumerate 0 rows))
       d_in (enumerate 0 cols)"

text \<open>
  \<^verbatim>\<open>Conv2D.backward\<close>: the parameter gradients, then the gradient with respect to
  the inputs. Without a cache the first subscript of \<^verbatim>\<open>self.cache\<close> raises TypeError.
\<close>

definition Conv2D_backward :: "conv2d \<Rightarrow> tensor4 \<Rightarrow> conv2d \<times> (py_error + tensor4)" where
  "Conv2D_backward self grad =
     (case cache self of
        None \<Rightarrow> (self, Inl TypeError)
      | Some c \<Rightarrow>
          (let in_n = cc_in_n c;
               (in_h, in_w, in_c) = cc_in_img_size c;
               (k_h, k_w, k_c) = cc_kernel_size c;
               (s_h, s_w) = cc_stride c;
               (out_h, out_w, out_c) = cc_out_img_size c;
               (padded_h, padded_w, padded_c) = cc_pad_img_size c;
               pad = cc_pad c
           in case bindE (reshape_cols out_c (flatten4 grad))
                     (\<lambda>g. matmul (transpose_m (cc_X_matrix c)) g) of
                Inl e \<Rightarrow> (self, Inl e)
              | Inr d_w \<Rightarrow>
                  (case params_w self of
                     None \<Rightarrow> (self, Inl KeyError)
                   | Some w \<Rightarrow>
                       (case (let (w0, w1, w2, w3) = shape4 w
                              in reshape4 (int w0) (int w1) (int w2) (int w3) (concat d_w)) of
                          Inl e \<Rightarrow> (self, Inl e)
                        | Inr gw \<Rightarrow>
                            (let self = self\<lparr>grads_w := Some gw\<rparr>;
                                 self = self\<lparr>grads_b := Some (sum_axes012 grad)\<rparr>
                             in (self,
                                 bindE (matmul4 grad (transpose_m (cc_W_matrix c))) (\<lambda>d_X_matrix.
                                   if s_h = 0 \<or> s_w = 0 then Inl ValueError
                                   else
                                     bindE (Conv2D_scatter in_n k_h k_w in_c d_X_matrix
                                              (py_range (int padded_h - int k_h + 1) s_h)
                                              (py_range (int padded_w - int k_w + 1) s_w)
                                              (np_zeros4 in_n padded_h padded_w in_c))
                                       (\<lambda>d_in.
                                          if length pad < 4 then Inl IndexError
                                          else Inr (map (\<lambda>img.
                                                 map (py_slice (pad ! 2) (int padded_w - pad ! 3))
                                                   (py_slice (pad ! 0) (int padded_h - pad ! 1) img))
                                                 d_in)))))))))"

subsection \<open>MaxPool2D\<close>

record pool_cache =
  pc_in_n :: nat
  pc_in_img_size :: "nat \<times> nat \<times> nat"
  pc_stride :: "nat \<times> nat"
  pc_pad :: "nat \<times> nat"
  pc_pool :: "nat \<times> nat"
  pc_max_pos :: "nat list list list list"
  pc_out_img_size :: "nat \<times> nat \<times> nat"

record maxpool2d =
  pool_size :: "nat list"
  mp_stride :: "nat list"
  mp_padding_mode :: string
  mp_cache :: "pool_cache option"

text \<open>\<^verbatim>\<open>MaxPool2D.__init__\<close>.\<close>

definition MaxPool2D_init :: "nat list \<Rightarrow> nat list \<Rightarrow> string \<Rightarrow> py_error + maxpool2d" where
  "MaxPool2D_init pool_size_arg stride_arg padding =
     (if length pool_size_arg \<noteq> 2 then Inl AssertionError
      else if length stride_arg \<noteq> 2 then Inl AssertionError
      else if padding \<notin> set [''VALID'', ''SAME''] then Inl AssertionError
      else Inr \<lparr>pool_size = pool_size_arg, mp_stride = stride_arg,
                mp_padding_mode = padding, mp_cache = None\<rparr>)"

text \<open>
  \<^verbatim>\<open>np.argmax\<close> and \<^verbatim>\<open>np.max\<close> along an axis: a scan from the left that
  replaces the best entry only by a strictly larger one. On an empty axis numpy raises;
  the caller tests for it.
\<close>

fun argmax_from :: "nat \<Rightarrow> real \<Rightarrow> nat \<Rightarrow> real list \<Rightarrow> nat" where
  "argmax_from best v i [] = best"
| "argmax_from best v i (x # xs) =
     (if v < x then argmax_from i x (Suc i) xs else argmax_from best v (Suc i) xs)"

definition np_argmax :: "real list \<Rightarrow> nat" where
  "np_argmax xs = (case xs of [] \<Rightarrow> 0 | x # ys \<Rightarrow> argmax_from 0 x 1 ys)"

definition np_max :: "real list \<Rightarrow> real" where
  "np_max xs = (case xs of [] \<Rightarrow> 0 | x # ys \<Rightarrow> foldl max x ys)"

text \<open>
  One pooling window of \<^verbatim>\<open>MaxPool2D.forward\<close>: the slice, its reshape to
  \<open>(in_n, -1, in_c)\<close>, and the argmax and the max along axis 1.
\<close>

definition MaxPool2D_window ::
  "tensor4 \<Rightarrow> nat \<Rightarrow> nat \<Rightarrow> nat \<Rightarrow> nat \<Rightarrow> nat \<times> nat \<Rightarrow> py_error + (nat list list \<times> real list list)" where
  "MaxPool2D_window padded in_n in_c pool_h pool_w colrow =
     (let (col, row) = colrow;
          flat = flatten4 (map (\<lambda>img. map (py_slice (int row) (int row + int pool_w))
                                      (py_slice (int col) (int col + int pool_h) img)) padded)
      in if in_n * in_c = 0 \<or> length flat mod (in_n * in_c) \<noteq> 0 then Inl ValueError
         else
           (let k = length flat div (in_n * in_c);
                pool = rows_of in_n k (rows_of (in_n * k) in_c flat)
            in if k = 0 then Inl ValueError
               else Inr (map (\<lambda>p. map (\<lambda>c. np_argmax (map (\<lambda>px. px ! c) p)) [0..<in_c]) pool,
                         map (\<lambda>p. map (\<lambda>c. np_max (map (\<lambda>px. px ! c) p)) [0..<in_c]) pool)))"

text \<open>
  \<^verbatim>\<open>np.array(xs).transpose((1, 0, 2)).reshape((in_n, out_h, out_w, in_c))\<close> of the
  list of per-window results; an empty list has no axis 1.
\<close>

definition stack_windows ::
  "nat \<Rightarrow> nat \<Rightarrow> nat \<Rightarrow> nat \<Rightarrow> 'a list list list \<Rightarrow> py_error + 'a list list list list" where
  "stack_windows in_n out_h out_w in_c xs =
     (if xs = [] then Inl ValueError
      else reshape4 (int in_n) (int out_h) (int out_w) (int in_c)
             (concat (map (\<lambda>n. concat (map (\<lambda>x. x ! n) xs)) [0..<length (first xs)])))"

definition MaxPool2D_forward_sized ::
  "tensor4 \<Rightarrow> tensor4 \<Rightarrow> nat \<Rightarrow> nat \<Rightarrow> nat \<Rightarrow> nat \<Rightarrow> py_error + (pool_cache \<times> tensor4)" where
  "MaxPool2D_forward_sized inputs padded s_h s_w pool_h pool_w =
     (let (in_n, in_h, in_w, in_c) = shape4 inputs;
          (padded_n, pad_h, pad_w, padded_c) = shape4 padded
      in if s_h = 0 \<or> s_w = 0 then Inl ZeroDivisionError
         else
           (let out_h = pad_h div s_h; out_w = pad_w div s_w
            in bindE (mapE (MaxPool2D_window padded in_n in_c pool_h pool_w)
                        (List.product (py_range (int pad_h) s_h) (py_range (int pad_w) s_w)))
                 (\<lambda>windows.
                    bindE (stack_windows in_n out_h out_w in_c (map snd windows)) (\<lambda>outputs.
                    bindE (stack_windows in_n out_h out_w in_c (map fst windows)) (\<lambda>max_pos.
                      Inr (\<lparr>pc_in_n = in_n, pc_in_img_size = (in_h, in_w, in_c),
                            pc_stride = (s_h, s_w), pc_pad = (pad_h, pad_w),
                            pc_pool = (pool_h, pool_w), pc_max_pos = max_pos,
                            pc_out_img_size = (out_h, out_w, in_c)\<rparr>,
                           outputs))))))"

text \<open>\<^verbatim>\<open>MaxPool2D.forward\<close>; the layer is returned with the new cache.\<close>

definition MaxPool2D_forward :: "maxpool2d \<Rightarrow> tensor4 \<Rightarrow> maxpool2d \<times> (py_error + tensor4)" where
  "MaxPool2D_forward self inputs =
     (let (in_n, in_h, in_w, in_c) = shape4 inputs
      in case bindE (MaxPool2D_get_padding [int in_h, int in_w] (map int (pool_size self))
                       (map int (mp_stride self)) (mp_padding_mode self)) (\<lambda>pad.
              bindE (np_pad_constant pad inputs) (\<lambda>padded.
                case mp_stride self of
                  [s_h, s_w] \<Rightarrow>
                    (case pool_size self of
                       [pool_h, pool_w] \<Rightarrow>
                         MaxPool2D_forward_sized inputs padded s_h s_w pool_h pool_w
                     | _ \<Rightarrow> Inl ValueError)
                | _ \<Rightarrow> Inl ValueError)) of
           Inl e \<Rightarrow> (self, Inl e)
         | Inr (c, outputs) \<Rightarrow> (self\<lparr>mp_cache := Some c\<rparr>, Inr outputs))"

text \<open>
  One window of \<^verbatim>\<open>MaxPool2D.backward\<close>. \<open>mask[n][q][c]\<close> is 1 where \<open>q\<close> is the cached
  argmax and 0 elsewhere; the product with the repeated gradient follows numpy's
  broadcasting (an axis of length 1 is stretched); the assignment to the block of \<open>d_in\<close>
  raises when the block is cut short by the border of the buffer.
\<close>

definition bc_dim :: "nat \<Rightarrow> nat \<Rightarrow> nat option" where
  "bc_dim a b = (if a = b then Some a else if a = 1 then Some b else if b = 1 then Some a else None)"

definition bc_get :: "'a list \<Rightarrow> nat \<Rightarrow> 'a" where
  "bc_get xs i = (if length xs = 1 then xs ! 0 else xs ! i)"

definition MaxPool2D_region ::
  "nat \<Rightarrow> real list list \<Rightarrow> nat list list \<Rightarrow> py_error + real list list list" where
  "MaxPool2D_region k g max_pos =
     (if \<not> list_all (list_all (\<lambda>p. p < k)) max_pos then Inl IndexError
      else
        (let mask = map (\<lambda>mp. map (\<lambda>q. map (\<lambda>p. if p = q then 1 else 0) mp) [0..<k]) max_pos
         in case (bc_dim (length g) (length mask), bc_dim (length (first g)) (length (first max_pos))) of
              (Some n, Some c) \<Rightarrow>
                Inr (map (\<lambda>i. map (\<lambda>q. map (\<lambda>j. bc_get (bc_get g i) j * bc_get (bc_get mask i ! q) j)
                                            [0..<c]) [0..<k]) [0..<n])
            | _ \<Rightarrow> Inl ValueError))"

definition MaxPool2D_backward_step ::
  "pool_cache \<Rightarrow> tensor4 \<Rightarrow> nat \<times> nat \<Rightarrow> tensor4 \<Rightarrow> nat \<times> nat \<Rightarrow> py_error + tensor4" where
  "MaxPool2D_backward_step c grad icol d_in jrow =
     (let (i, col) = icol; (j, row) = jrow;
          in_n = pc_in_n c; (in_h, in_w, in_c) = pc_in_img_size c;
          (pad_h, pad_w) = pc_pad c; (pool_h, pool_w) = pc_pool c;
          (m0, m1, m2, m3) = shape4 (pc_max_pos c);
          (g0, g1, g2, g3) = shape4 grad
      in if m1 \<le> i \<or> m2 \<le> j then Inl IndexError
         else if g1 \<le> i \<or> g2 \<le> j then Inl IndexError
         else
           bindE (MaxPool2D_region (pool_h * pool_w) (map (\<lambda>g. g ! i ! j) grad)
                    (map (\<lambda>m. m ! i ! j) (pc_max_pos c))) (\<lambda>region.
           bindE (reshape4 (int in_n) (int pool_h) (int pool_w) (int in_c) (concat (concat region)))
             (\<lambda>region.
                if pad_h < col + pool_h \<or> pad_w < row + pool_w then Inl ValueError
                else Inr (update_region (\<lambda>old new. new) col pool_h row pool_w d_in region))))"

text \<open>\<^verbatim>\<open>MaxPool2D.backward\<close>: it returns the buffer \<open>d_in\<close> of the padded size.\<close>

definition MaxPool2D_backward :: "maxpool2d \<Rightarrow> tensor4 \<Rightarrow> py_error + tensor4" where
  "MaxPool2D_backward self grad =
     (case mp_cache self of
        None \<Rightarrow> Inl TypeError
      | Some c \<Rightarrow>
          (let in_n = pc_in_n c; (in_h, in_w, in_c) = pc_in_img_size c;
               (s_h, s_w) = pc_stride c; (pad_h, pad_w) = pc_pad c
           in if s_h = 0 \<or> s_w = 0 then Inl ValueError
              else foldE (\<lambda>d_in icol.
                            foldE (MaxPool2D_backward_step c grad icol) d_in
                              (enumerate 0 (py_range (int pad_w) s_w)))
                     (np_zeros4 in_n pad_h pad_w in_c)
                     (enumerate 0 (py_range (int pad_h) s_h))))"

subsection \<open>Specification of the input gradient\<close>

text \<open>
  The adjoint of the patch gather of \<^verbatim>\<open>Conv2D.forward\<close>, written down directly: the
  entry \<open>(b, y, x, ch)\<close> of the padded buffer is the sum, over the output positions
  \<open>(i, j)\<close> in the order of the loops, of the entry of \<open>d_X[b, i, j, :]\<close> that belongs to
  \<open>(y, x, ch)\<close> when \<open>(y, x)\<close> lies in the receptive field of \<open>(i, j)\<close>, and of 0 when it
  does not.
\<close>

definition scatter_add_value ::
  "nat \<Rightarrow> nat \<Rightarrow> nat \<Rightarrow> nat \<Rightarrow> nat \<Rightarrow> nat \<Rightarrow> nat \<Rightarrow> tensor4 \<Rightarrow> nat \<Rightarrow> nat \<Rightarrow> nat \<Rightarrow> nat \<Rightarrow> real" where
  "scatter_add_value k_h k_w s_h s_w in_c out_h out_w d_X b y x ch =
     (\<Sum>i\<leftarrow>[0..<out_h]. \<Sum>j\<leftarrow>[0..<out_w].
        if i * s_h \<le> y \<and> y < i * s_h + k_h \<and> j * s_w \<le> x \<and> x < j * s_w + k_w
        then d_X ! b ! i ! j ! (((y - i * s_h) * k_w + (x - j * s_w)) * in_c + ch)
        else 0)"

subsection \<open>Specification of the pooling windows\<close>

text \<open>
  The values of one channel of the pooling window that starts at \<open>(col, row)\<close>, in the
  order of the flat index within the \<open>pool_h * pool_w\<close> window, and what it means for a
  flat index to be the first occurrence of the maximum of such a list.
\<close>

definition window_values :: "tensor4 \<Rightarrow> nat \<Rightarrow> nat \<Rightarrow> nat \<Rightarrow> nat \<Rightarrow> nat \<Rightarrow> nat \<Rightarrow> real list" where
  "window_values padded b col row pool_h pool_w ch =
     map (\<lambda>q. padded ! b ! (col + q div pool_w) ! (row + q mod pool_w) ! ch) [0..<pool_h * pool_w]"

definition is_first_max :: "real list \<Rightarrow> nat \<Rightarrow> bool" where
  "is_first_max vs k =
     (k < length vs \<and> list_all (\<lambda>q. vs ! q \<le> vs ! k) [0..<length vs] \<and>
      list_all (\<lambda>q. vs ! q < vs ! k) [0..<k])"

section \<open>Auxiliary lemmas\<close>

subsection \<open>Shapes, rows and computations that can raise\<close>

lemma Conv2D_get_padding_FULL:
  "Conv2D_get_padding [kh, kw] ''FULL'' = Inr ([], Some [kh - 1, kw - 1, kh - 1, kw - 1])"
  by (simp add: Conv2D_get_padding_def)

lemma Conv2D_get_padding_VALID:
  "Conv2D_get_padding ks ''VALID'' = Inr ([], Some [0, 0, 0, 0])"
  by (simp add: Conv2D_get_padding_def)

lemma Conv2D_get_padding_SAME:
  "Conv2D_get_padding [kh, kw] ''SAME'' =
     Inr ([], Some [(kh - 1) div 2, (kh - 1) div 2 + (if even kh then 1 else 0),
                    (kw - 1) div 2, (kw - 1) div 2 + (if even kw then 1 else 0)])"
  by (simp add: Conv2D_get_padding_def Let_def even_iff_mod_2_eq_zero)


lemma bindE_Inr [simp]: "bindE (Inr x) f = f x"
  by (simp add: bindE_def)

lemma bindE_Inl [simp]: "bindE (Inl e) f = Inl e"
  by (simp add: bindE_def)

lemma first_Cons [simp]: "first (x # xs) = x"
  by (simp add: first_def)

lemma first_Nil [simp]: "first [] = []"
  by (simp add: first_def)

lemma first_nth: "0 < length xs \<Longrightarrow> first xs = xs ! 0"
  by (cases xs) simp_all

lemma has_shape4_iff:
  "has_shape4 n h w c t \<longleftrightarrow>
     length t = n \<and>
     (\<forall>i<n. length (t ! i) = h \<and>
        (\<forall>j<h. length (t ! i ! j) = w \<and> (\<forall>k<w. length (t ! i ! j ! k) = c)))"
  by (auto simp: has_shape4_def list_all_length)

lemma has_shape2_iff:
  "has_shape2 r c m \<longleftrightarrow> length m = r \<and> (\<forall>i<r. length (m ! i) = c)"
  by (auto simp: has_shape2_def list_all_length)

lemma shape4_has_shape4:
  assumes "has_shape4 n h w c t" "0 < n" "0 < h" "0 < w"
  shows "shape4 t = (n, h, w, c)"
proof -
  from assms have l: "length t = n" "length (t ! 0) = h" "length (t ! 0 ! 0) = w"
    "length (t ! 0 ! 0 ! 0) = c"
    by (auto simp: has_shape4_iff)
  with assms show ?thesis
    by (simp add: shape4_def first_nth)
qed

lemma length_rows_of [simp]: "length (rows_of cnt len xs) = cnt"
  by (simp add: rows_of_def)

lemma rows_of_nth: "i < cnt \<Longrightarrow> rows_of cnt len xs ! i = take len (drop (i * len) xs)"
  by (simp add: rows_of_def)

lemma mult_Suc_le: "i < cnt \<Longrightarrow> i * len + len \<le> cnt * (len::nat)"
proof -
  assume "i < cnt"
  then have "Suc i \<le> cnt" by simp
  then have "Suc i * len \<le> cnt * len" by (rule mult_le_mono1)
  then show ?thesis by (simp add: ac_simps)
qed

lemma index_bound: "i < cnt \<Longrightarrow> j < len \<Longrightarrow> i * len + j < cnt * (len::nat)"
  using mult_Suc_le [of i cnt len] by linarith

lemma length_rows_of_nth:
  "i < cnt \<Longrightarrow> cnt * len \<le> length xs \<Longrightarrow> length (rows_of cnt len xs ! i) = len"
  using mult_Suc_le [of i cnt len] by (simp add: rows_of_nth)

lemma rows_of_nth_nth:
  "i < cnt \<Longrightarrow> j < len \<Longrightarrow> cnt * len \<le> length xs \<Longrightarrow>
   rows_of cnt len xs ! i ! j = xs ! (i * len + j)"
proof -
  assume a: "i < cnt" "j < len" "cnt * len \<le> length xs"
  then have "i * len + j < length xs"
    using index_bound [OF a(1) a(2)] by linarith
  then have "i * len \<le> length xs" by linarith
  with a show ?thesis by (simp add: rows_of_nth)
qed

lemma has_shape2_rows_of:
  "cnt * len \<le> length xs \<Longrightarrow> has_shape2 cnt len (rows_of cnt len xs)"
  by (simp add: has_shape2_iff length_rows_of_nth)

lemma concat_uniform_length:
  "(\<And>x. x \<in> set xss \<Longrightarrow> length x = len) \<Longrightarrow> length (concat xss) = length xss * len"
  by (induction xss) simp_all

lemma concat_uniform_nth:
  "(\<And>x. x \<in> set xss \<Longrightarrow> length x = len) \<Longrightarrow> i < length xss \<Longrightarrow> j < len \<Longrightarrow>
   concat xss ! (i * len + j) = xss ! i ! j"
proof (induction xss arbitrary: i)
  case Nil
  then show ?case by simp
next
  case (Cons x xss)
  show ?case
  proof (cases i)
    case 0
    with Cons.prems show ?thesis by (simp add: nth_append)
  next
    case (Suc i')
    with Cons.prems have "concat xss ! (i' * len + j) = xss ! i' ! j"
      by (intro Cons.IH) auto
    moreover have "length x = len" using Cons.prems by simp
    ultimately show ?thesis using Suc by (simp add: nth_append)
  qed
qed

lemma rows_of_concat:
  assumes "\<And>x. x \<in> set xss \<Longrightarrow> length x = len"
  shows "rows_of (length xss) len (concat xss) = xss"
proof (rule nth_equalityI)
  show "length (rows_of (length xss) len (concat xss)) = length xss" by simp
next
  fix i assume "i < length (rows_of (length xss) len (concat xss))"
  then have i: "i < length xss" by simp
  have len: "length (concat xss) = length xss * len"
    using assms by (rule concat_uniform_length)
  have li: "length (xss ! i) = len" using assms i by simp
  show "rows_of (length xss) len (concat xss) ! i = xss ! i"
  proof (rule nth_equalityI)
    show "length (rows_of (length xss) len (concat xss) ! i) = length (xss ! i)"
      using i len li by (simp add: length_rows_of_nth)
  next
    fix j assume "j < length (rows_of (length xss) len (concat xss) ! i)"
    then have j: "j < len" using i len by (simp add: length_rows_of_nth)
    show "rows_of (length xss) len (concat xss) ! i ! j = xss ! i ! j"
      using i j len assms by (simp add: rows_of_nth_nth concat_uniform_nth)
  qed
qed

lemma mapE_Inr:
  "(\<And>x. x \<in> set xs \<Longrightarrow> f x = Inr (g x)) \<Longrightarrow> mapE f xs = Inr (map g xs)"
  by (induction xs) simp_all

lemma mapE_InrD:
  "mapE f xs = Inr ys \<Longrightarrow> length ys = length xs \<and> (\<forall>i<length xs. f (xs ! i) = Inr (ys ! i))"
proof (induction xs arbitrary: ys)
  case Nil
  then show ?case by simp
next
  case (Cons x xs)
  then show ?case
    by (auto split: sum.splits simp: nth_Cons split: nat.splits)
qed

lemma foldE_Inr:
  "(\<And>s x. x \<in> set xs \<Longrightarrow> f s x = Inr (g s x)) \<Longrightarrow> foldE f s xs = Inr (foldl g s xs)"
  by (induction xs arbitrary: s) simp_all

lemma length_map_range [simp]: "length (map_range lo len f xs) = length xs"
  by (simp add: map_range_def)

lemma map_range_nth:
  "i < length xs \<Longrightarrow>
   map_range lo len f xs ! i = (if lo \<le> i \<and> i < lo + len then f (i - lo) (xs ! i) else xs ! i)"
  by (simp add: map_range_def)

lemma length_update_region [simp]: "length (update_region f col kh row kw buf patch) = length buf"
  by (simp add: update_region_def)

lemma update_region_nth:
  assumes "n < length buf" "y < length (buf ! n)" "x < length (buf ! n ! y)"
  shows "update_region f col kh row kw buf patch ! n ! y ! x =
           (if col \<le> y \<and> y < col + kh \<and> row \<le> x \<and> x < row + kw
            then map2 f (buf ! n ! y ! x) (patch ! n ! (y - col) ! (x - row))
            else buf ! n ! y ! x)"
  using assms by (simp add: update_region_def map_range_nth)

lemma update_region_shape:
  assumes "has_shape4 n h w c buf"
    and "\<And>i a b. i < n \<Longrightarrow> a < kh \<Longrightarrow> b < kw \<Longrightarrow> length (patch ! i ! a ! b) = c"
  shows "has_shape4 n h w c (update_region f col kh row kw buf patch)"
  using assms by (auto simp: has_shape4_iff update_region_def map_range_nth)

subsection \<open>Padding, slices and ranges\<close>

lemma pool_padding_1d_nonneg:
  assumes "0 < s"
  shows "\<exists>l t. MaxPool2D_get_padding_1d n p s mode = Inr [l, t] \<and> 0 \<le> l \<and> 0 \<le> t"
proof -
  define n_pad where "n_pad = (if mode = ''SAME'' then
       (if n mod s = 0 then max (p - s) 0 else max p s - n mod s) else 0)"
  have "n mod s < s" using assms by simp
  then have nn: "0 \<le> n_pad" unfolding n_pad_def by auto
  have eq: "MaxPool2D_get_padding_1d n p s mode =
      Inr (if n_pad mod 2 = 0 then [n_pad div 2, n_pad div 2] else [n_pad div 2, n_pad div 2 + 1])"
    using assms unfolding MaxPool2D_get_padding_1d_def n_pad_def Let_def by simp
  from nn have "0 \<le> n_pad div 2" by simp
  with eq show ?thesis by auto
qed

lemma pool_padding_nonneg:
  assumes "0 < sh" "0 < sw"
  shows "\<exists>a0 a1 b0 b1. MaxPool2D_get_padding [h, w] [ph, pw] [sh, sw] mode = Inr [a0, a1, b0, b1] \<and>
           0 \<le> a0 \<and> 0 \<le> a1 \<and> 0 \<le> b0 \<and> 0 \<le> b1"
proof -
  obtain a0 a1 where a: "MaxPool2D_get_padding_1d h ph sh mode = Inr [a0, a1]" "0 \<le> a0" "0 \<le> a1"
    using pool_padding_1d_nonneg [OF assms(1)] by blast
  obtain b0 b1 where b: "MaxPool2D_get_padding_1d w pw sw mode = Inr [b0, b1]" "0 \<le> b0" "0 \<le> b1"
    using pool_padding_1d_nonneg [OF assms(2)] by blast
  from a b show ?thesis by (simp add: MaxPool2D_get_padding_def)
qed

lemma np_pad_constant_shape:
  assumes "has_shape4 n h w c a" "0 < n" "0 < h" "0 < w"
    and "0 \<le> p0" "0 \<le> p1" "0 \<le> p2" "0 \<le> p3"
  shows "\<exists>padded. np_pad_constant [p0, p1, p2, p3] a = Inr padded \<and>
           has_shape4 n (h + nat p0 + nat p1) (w + nat p2 + nat p3) c padded"
proof -
  have s: "shape4 a = (n, h, w, c)" using assms(1-4) by (rule shape4_has_shape4)
  show ?thesis
    using assms s
    by (auto simp: np_pad_constant_def has_shape4_def list_all_iff Let_def)
qed

lemma length_py_slice:
  "length (py_slice (int lo) (int lo + int k) xs) = min k (length xs - lo)"
  by (auto simp: py_slice_def py_index_def Let_def min_def)

lemma py_slice_nth:
  "j < k \<Longrightarrow> lo + j < length xs \<Longrightarrow> py_slice (int lo) (int lo + int k) xs ! j = xs ! (lo + j)"
  by (auto simp: py_slice_def py_index_def Let_def min_def)

lemma length_flatten4:
  assumes "has_shape4 n h w c t"
  shows "length (flatten4 t) = n * h * w * c"
proof -
  have 1: "length (concat t) = n * h"
    using assms concat_uniform_length [of t h] by (auto simp: has_shape4_def list_all_iff)
  have 2: "length (concat (concat t)) = n * h * w"
    using assms concat_uniform_length [of "concat t" w] 1
    by (auto simp: has_shape4_def list_all_iff)
  have 3: "length (concat (concat (concat t))) = n * h * w * c"
    using assms concat_uniform_length [of "concat (concat t)" c] 2
    by (auto simp: has_shape4_def list_all_iff)
  then show ?thesis by (simp add: flatten4_def)
qed

lemma window_shape:
  assumes "has_shape4 n h w c t" "col < h" "row < w"
  shows "has_shape4 n (min kh (h - col)) (min kw (w - row)) c
           (map (\<lambda>img. map (py_slice (int row) (int row + int kw))
                          (py_slice (int col) (int col + int kh) img)) t)"
  using assms
  by (auto simp: has_shape4_iff length_py_slice py_slice_nth)

lemma ceil_div_nat:
  assumes "0 < (s::nat)"
  shows "(p + s - 1) div s = (if s dvd p then p div s else p div s + 1)"
proof -
  define q where "q = p div s"
  define r where "r = p mod s"
  have p: "p = s * q + r" by (simp add: q_def r_def)
  have rs: "r < s" using assms by (simp add: r_def)
  show ?thesis
  proof (cases "s dvd p")
    case True
    then have r0: "r = 0" by (simp add: r_def dvd_eq_mod_eq_0)
    have "(p + s - 1) div s = q"
    proof (rule div_nat_eqI)
      show "s * q \<le> p + s - 1" using p r0 assms by linarith
      show "p + s - 1 < s * Suc q" using p r0 assms by (simp add: algebra_simps)
    qed
    with True show ?thesis by (simp add: q_def)
  next
    case False
    then have r0: "0 < r" by (simp add: r_def dvd_eq_mod_eq_0)
    have "(p + s - 1) div s = Suc q"
    proof (rule div_nat_eqI)
      show "s * Suc q \<le> p + s - 1" using p r0 assms by (simp add: algebra_simps)
      show "p + s - 1 < s * Suc (Suc q)" using p r0 rs assms by (simp add: algebra_simps)
    qed
    with False show ?thesis by (simp add: q_def)
  qed
qed

lemma length_py_range_nat:
  "0 < s \<Longrightarrow> length (py_range (int p) s) = (p + s - 1) div s"
proof -
  assume s: "0 < s"
  have "int p + int s - 1 = int (p + s - 1)" using s by simp
  then have "(int p + int s - 1) div int s = int ((p + s - 1) div s)"
    by (simp only: zdiv_int)
  then show ?thesis by (simp add: py_range_def)
qed

lemma py_range_nth: "i < length (py_range stop s) \<Longrightarrow> py_range stop s ! i = i * s"
  by (simp add: py_range_def)

lemma py_range_bound:
  assumes "0 < s" "i < length (py_range stop s)"
  shows "int (i * s) < stop"
proof -
  let ?c = "(stop + int s - 1) div int s"
  from assms(2) have "int i < ?c" by (simp add: py_range_def)
  then have "int i + 1 \<le> ?c" by simp
  then have "(int i + 1) * int s \<le> ?c * int s" using assms(1) by simp
  also have "\<dots> \<le> stop + int s - 1" using assms(1)
    by (metis div_mult_mod_eq le_add_same_cancel1 of_nat_0_less_iff pos_mod_sign zero_le)
  finally show ?thesis by (simp add: algebra_simps)
qed

lemma windows_count:
  assumes "0 < sh" "0 < sw" "0 < ph" "0 < pw"
  shows "((ph + sh - 1) div sh) * ((pw + sw - 1) div sw) = (ph div sh) * (pw div sw)
         \<longleftrightarrow> sh dvd ph \<and> sw dvd (pw::nat)"
proof -
  have ch: "(ph + sh - 1) div sh = (if sh dvd ph then ph div sh else ph div sh + 1)"
    using ceil_div_nat [OF assms(1), of ph] by simp
  have cw: "(pw + sw - 1) div sw = (if sw dvd pw then pw div sw else pw div sw + 1)"
    using ceil_div_nat [OF assms(2), of pw] by simp
  have hpos: "sh dvd ph \<Longrightarrow> 0 < ph div sh" using assms
    by (auto elim!: dvdE)
  have wpos: "sw dvd pw \<Longrightarrow> 0 < pw div sw" using assms
    by (auto elim!: dvdE)
  show ?thesis
    unfolding ch cw using hpos wpos
    by (auto simp: algebra_simps)
qed

subsection \<open>Reshaping to rank 4\<close>

lemma mult4_le: "(a::nat) * b * c * d = (a * b * c) * d" by simp

lemma reshape4_Inr:
  assumes "length xs = a * b * c * d"
  shows "reshape4 (int a) (int b) (int c) (int d) xs =
           Inr (rows_of a b (rows_of (a * b) c (rows_of (a * b * c) d xs)))"
proof -
  have "int (length xs) = int a * int b * int c * int d"
    using assms by simp
  then show ?thesis by (simp add: reshape4_def)
qed

lemma reshape4_Inl:
  assumes "length xs \<noteq> a * b * c * d"
  shows "reshape4 (int a) (int b) (int c) (int d) xs = Inl ValueError"
proof -
  have "int a * int b * int c * int d = int (a * b * c * d)" by simp
  moreover have "int (length xs) \<noteq> int (a * b * c * d)"
    using assms by (simp only: of_nat_eq_iff not_False_eq_True)
  ultimately have "int (length xs) \<noteq> int a * int b * int c * int d" by simp
  then show ?thesis unfolding reshape4_def by (simp only: simp_thms if_True)
qed

lemma rows4_shape:
  assumes "length xs = a * b * c * d"
  shows "has_shape4 a b c d (rows_of a b (rows_of (a * b) c (rows_of (a * b * c) d xs)))"
proof -
  let ?r3 = "rows_of (a * b * c) d xs"
  let ?r2 = "rows_of (a * b) c ?r3"
  let ?r1 = "rows_of a b ?r2"
  have l3: "length ?r3 = a * b * c" by simp
  have l2: "length ?r2 = a * b" by simp
  {
    fix n i j assume n: "n < a" and i: "i < b" and j: "j < c"
    have e1: "?r1 ! n ! i = ?r2 ! (n * b + i)"
      using n i by (simp add: rows_of_nth_nth)
    have ni: "n * b + i < a * b" using n i by (rule index_bound)
    have e2: "?r2 ! (n * b + i) ! j = ?r3 ! ((n * b + i) * c + j)"
      using ni j by (simp add: rows_of_nth_nth)
    have nij: "(n * b + i) * c + j < a * b * c" using ni j by (rule index_bound)
    have "length (?r1 ! n) = b" using n by (simp add: length_rows_of_nth)
    moreover have "length (?r1 ! n ! i) = c" using e1 ni by (simp add: length_rows_of_nth)
    moreover have "length (?r1 ! n ! i ! j) = d"
      using e1 e2 nij assms by (simp add: length_rows_of_nth)
    ultimately have "length (?r1 ! n) = b \<and> length (?r1 ! n ! i) = c \<and> length (?r1 ! n ! i ! j) = d"
      by simp
  } note * = this
  show ?thesis
    unfolding has_shape4_iff
  proof (intro conjI allI impI)
    show "length ?r1 = a" by simp
  next
    fix n assume n: "n < a"
    then show "length (?r1 ! n) = b" by (simp add: length_rows_of_nth)
  next
    fix n i assume "n < a" "i < b"
    then show "length (?r1 ! n ! i) = c"
      by (cases "0 < c") (use *[of n i 0] in \<open>auto simp: rows_of_nth_nth length_rows_of_nth index_bound\<close>)
  next
    fix n i j assume "n < a" "i < b" "j < c"
    then show "length (?r1 ! n ! i ! j) = d" using * by blast
  qed
qed

lemma rows4_nth:
  assumes "length xs = a * b * c * d" "n < a" "i < b" "j < c" "k < d"
  shows "rows_of a b (rows_of (a * b) c (rows_of (a * b * c) d xs)) ! n ! i ! j ! k =
           xs ! (((n * b + i) * c + j) * d + k)"
proof -
  let ?r3 = "rows_of (a * b * c) d xs"
  let ?r2 = "rows_of (a * b) c ?r3"
  let ?r1 = "rows_of a b ?r2"
  have ni: "n * b + i < a * b" using assms(2,3) by (rule index_bound)
  have nij: "(n * b + i) * c + j < a * b * c" using ni assms(4) by (rule index_bound)
  have e1: "?r1 ! n ! i = ?r2 ! (n * b + i)"
    using assms by (simp add: rows_of_nth_nth)
  have e2: "?r2 ! (n * b + i) ! j = ?r3 ! ((n * b + i) * c + j)"
    using ni assms by (simp add: rows_of_nth_nth)
  have e3: "?r3 ! ((n * b + i) * c + j) ! k = xs ! (((n * b + i) * c + j) * d + k)"
    using nij assms by (simp add: rows_of_nth_nth)
  show ?thesis by (simp only: e1 e2 e3)
qed

subsection \<open>MaxPool2D.forward: success and shape\<close>

lemma MaxPool2D_window_Inr:
  assumes "has_shape4 n h w c padded" "0 < n" "0 < c" "0 < ph" "0 < pw" "col < h" "row < w"
  shows "\<exists>mp mx. MaxPool2D_window padded n c ph pw (col, row) = Inr (mp, mx) \<and>
           has_shape2 n c mp \<and> has_shape2 n c mx"
proof -
  let ?a = "min ph (h - col)" and ?b = "min pw (w - row)"
  let ?sl = "map (\<lambda>img. map (py_slice (int row) (int row + int pw))
                          (py_slice (int col) (int col + int ph) img)) padded"
  have sh: "has_shape4 n ?a ?b c ?sl"
    using assms(1,6,7) by (rule window_shape)
  have len: "length (flatten4 ?sl) = (?a * ?b) * (n * c)"
    using length_flatten4 [OF sh] by (simp add: ac_simps)
  have nc: "0 < n * c" using assms by simp
  have ab: "0 < ?a * ?b" using assms by simp
  have m: "length (flatten4 ?sl) mod (n * c) = 0" using len by simp
  have d: "length (flatten4 ?sl) div (n * c) = ?a * ?b" using len nc by simp
  show ?thesis
    using nc ab m d
    by (simp add: MaxPool2D_window_def Let_def has_shape2_iff)
qed

lemma stack_windows_eq:
  assumes "xs \<noteq> []" "\<And>x. x \<in> set xs \<Longrightarrow> has_shape2 n c x" "0 < n" "0 < c"
  shows "length xs = oh * ow \<Longrightarrow>
           (\<exists>t. stack_windows n oh ow c xs = Inr t \<and> has_shape4 n oh ow c t)"
    and "length xs \<noteq> oh * ow \<Longrightarrow> stack_windows n oh ow c xs = Inl ValueError"
proof -
  let ?flat = "concat (map (\<lambda>i. concat (map (\<lambda>x. x ! i) xs)) [0..<length (first xs)])"
  have fx: "first xs \<in> set xs" using assms(1) by (cases xs) simp_all
  then have lf: "length (first xs) = n" using assms(2) by (simp add: has_shape2_iff)
  have inner: "\<And>i. i < n \<Longrightarrow> length (concat (map (\<lambda>x. x ! i) xs)) = length xs * c"
  proof -
    fix i assume "i < n"
    then have "\<And>y. y \<in> set (map (\<lambda>x. x ! i) xs) \<Longrightarrow> length y = c"
      using assms(2) by (auto simp: has_shape2_iff)
    then have "length (concat (map (\<lambda>x. x ! i) xs)) = length (map (\<lambda>x. x ! i) xs) * c"
      by (rule concat_uniform_length)
    then show "length (concat (map (\<lambda>x. x ! i) xs)) = length xs * c" by simp
  qed
  have "length ?flat = length (map (\<lambda>i. concat (map (\<lambda>x. x ! i) xs)) [0..<n]) * (length xs * c)"
    unfolding lf by (rule concat_uniform_length) (auto simp: inner)
  then have len: "length ?flat = n * (length xs * c)" by simp
  {
    assume "length xs = oh * ow"
    then have "length ?flat = n * oh * ow * c" using len by simp
    then have "reshape4 (int n) (int oh) (int ow) (int c) ?flat =
        Inr (rows_of n oh (rows_of (n * oh) ow (rows_of (n * oh * ow) c ?flat)))"
      and "has_shape4 n oh ow c (rows_of n oh (rows_of (n * oh) ow (rows_of (n * oh * ow) c ?flat)))"
      by (rule reshape4_Inr, rule rows4_shape)
    then show "\<exists>t. stack_windows n oh ow c xs = Inr t \<and> has_shape4 n oh ow c t"
      using assms(1) by (simp add: stack_windows_def)
  }
  {
    assume "length xs \<noteq> oh * ow"
    then have "length ?flat \<noteq> n * oh * ow * c" using len assms(3,4) by simp
    then have "reshape4 (int n) (int oh) (int ow) (int c) ?flat = Inl ValueError"
      by (rule reshape4_Inl)
    then show "stack_windows n oh ow c xs = Inl ValueError"
      using assms(1) by (simp add: stack_windows_def)
  }
qed

lemma set_py_range_product:
  assumes "0 < sh" "0 < sw"
    and "p \<in> set (List.product (py_range (int h) sh) (py_range (int w) sw))"
  shows "fst p < h \<and> snd p < w"
proof -
  have "p \<in> set (py_range (int h) sh) \<times> set (py_range (int w) sw)"
    using assms(3) by simp
  then have "fst p \<in> set (py_range (int h) sh) \<and> snd p \<in> set (py_range (int w) sw)"
    by (simp add: mem_Times_iff)
  then obtain i j where
    ij: "i < length (py_range (int h) sh)" "py_range (int h) sh ! i = fst p"
    "j < length (py_range (int w) sw)" "py_range (int w) sw ! j = snd p"
    unfolding in_set_conv_nth by blast
  have "fst p = i * sh" "snd p = j * sw"
    using ij py_range_nth [of i "int h" sh] py_range_nth [of j "int w" sw] by simp_all
  moreover have "i * sh < h" "j * sw < w"
    using py_range_bound [OF assms(1) ij(1)] py_range_bound [OF assms(2) ij(3)]
    by (simp_all only: of_nat_less_iff)
  ultimately show ?thesis by simp
qed

lemma ceil_div_pos: "0 < (s::nat) \<Longrightarrow> 0 < p \<Longrightarrow> 0 < (p + s - 1) div s"
proof -
  assume s: "0 < s" and p: "0 < p"
  have "s dvd p \<Longrightarrow> 0 < p div s" using s p by (auto elim!: dvdE)
  then show ?thesis using ceil_div_nat [OF s, of p] by (cases "s dvd p") simp_all
qed

lemma MaxPool2D_forward_sized_eq:
  assumes x: "has_shape4 n h w c x" and p: "has_shape4 n ph pw c padded"
    and pos: "0 < n" "0 < h" "0 < w" "0 < c" "0 < ph" "0 < pw"
      "0 < sh" "0 < sw" "0 < kh" "0 < kw"
  shows "sh dvd ph \<and> sw dvd pw \<Longrightarrow>
           (\<exists>cc out. MaxPool2D_forward_sized x padded sh sw kh kw = Inr (cc, out) \<and>
              has_shape4 n (ph div sh) (pw div sw) c out)"
    and "\<not> (sh dvd ph \<and> sw dvd pw) \<Longrightarrow>
           MaxPool2D_forward_sized x padded sh sw kh kw = Inl ValueError"
proof -
  let ?pos = "List.product (py_range (int ph) sh) (py_range (int pw) sw)"
  have sx: "shape4 x = (n, h, w, c)" using x pos by (intro shape4_has_shape4)
  have sp: "shape4 padded = (n, ph, pw, c)" using p pos by (intro shape4_has_shape4)
  have "\<forall>q\<in>set ?pos. \<exists>r. MaxPool2D_window padded n c kh kw q = Inr r \<and>
           has_shape2 n c (fst r) \<and> has_shape2 n c (snd r)"
  proof
    fix q assume "q \<in> set ?pos"
    then have "fst q < ph \<and> snd q < pw" using pos by (intro set_py_range_product)
    then show "\<exists>r. MaxPool2D_window padded n c kh kw q = Inr r \<and>
           has_shape2 n c (fst r) \<and> has_shape2 n c (snd r)"
      using MaxPool2D_window_Inr [OF p, of kh kw "fst q" "snd q"] pos by auto
  qed
  then have ex: "\<And>q. q \<in> set ?pos \<Longrightarrow> \<exists>r. MaxPool2D_window padded n c kh kw q = Inr r \<and>
           has_shape2 n c (fst r) \<and> has_shape2 n c (snd r)"
    by blast
  define g where "g = (\<lambda>q. projr (MaxPool2D_window padded n c kh kw q))"
  have g: "MaxPool2D_window padded n c kh kw q = Inr (g q) \<and>
           has_shape2 n c (fst (g q)) \<and> has_shape2 n c (snd (g q))" if "q \<in> set ?pos" for q
  proof -
    from ex [OF that] obtain r where r: "MaxPool2D_window padded n c kh kw q = Inr r"
      "has_shape2 n c (fst r)" "has_shape2 n c (snd r)" by blast
    then have "g q = r" by (simp add: g_def)
    with r show ?thesis by simp
  qed
  have wins: "mapE (MaxPool2D_window padded n c kh kw) ?pos = Inr (map g ?pos)"
    using g by (intro mapE_Inr) blast
  have unf: "MaxPool2D_forward_sized x padded sh sw kh kw =
      bindE (mapE (MaxPool2D_window padded n c kh kw) ?pos)
        (\<lambda>windows.
           bindE (stack_windows n (ph div sh) (pw div sw) c (map snd windows)) (\<lambda>outputs.
           bindE (stack_windows n (ph div sh) (pw div sw) c (map fst windows)) (\<lambda>max_pos.
             Inr (\<lparr>pc_in_n = n, pc_in_img_size = (h, w, c),
                   pc_stride = (sh, sw), pc_pad = (ph, pw),
                   pc_pool = (kh, kw), pc_max_pos = max_pos,
                   pc_out_img_size = (ph div sh, pw div sw, c)\<rparr>,
                  outputs))))"
    using pos(7,8) by (simp add: MaxPool2D_forward_sized_def sx sp Let_def)
  have cnt: "length ?pos = ((ph + sh - 1) div sh) * ((pw + sw - 1) div sw)"
    using pos by (simp add: length_py_range_nat)
  have "0 < (ph + sh - 1) div sh" "0 < (pw + sw - 1) div sw"
    using ceil_div_pos [of sh ph] ceil_div_pos [of sw pw] pos by simp_all
  then have ne: "?pos \<noteq> []" using cnt by (metis length_0_conv mult_is_0 less_numeral_extra(3))
  have eqv: "length ?pos = (ph div sh) * (pw div sw) \<longleftrightarrow> sh dvd ph \<and> sw dvd pw"
    unfolding cnt using pos by (intro windows_count)
  have s1: "map snd (map g ?pos) \<noteq> []" using ne by simp
  have s2: "map fst (map g ?pos) \<noteq> []" using ne by simp
  have h1: "\<And>y. y \<in> set (map snd (map g ?pos)) \<Longrightarrow> has_shape2 n c y" using g by auto
  have h2: "\<And>y. y \<in> set (map fst (map g ?pos)) \<Longrightarrow> has_shape2 n c y" using g by auto
  {
    assume "sh dvd ph \<and> sw dvd pw"
    then have l: "length ?pos = (ph div sh) * (pw div sw)" using eqv by simp
    obtain out where out: "stack_windows n (ph div sh) (pw div sw) c (map snd (map g ?pos)) = Inr out"
        "has_shape4 n (ph div sh) (pw div sw) c out"
      using stack_windows_eq(1) [OF s1 h1 pos(1) pos(4), of "ph div sh" "pw div sw"] l by auto
    obtain mp where mp: "stack_windows n (ph div sh) (pw div sw) c (map fst (map g ?pos)) = Inr mp"
      using stack_windows_eq(1) [OF s2 h2 pos(1) pos(4), of "ph div sh" "pw div sw"] l by auto
    show "\<exists>cc out. MaxPool2D_forward_sized x padded sh sw kh kw = Inr (cc, out) \<and>
              has_shape4 n (ph div sh) (pw div sw) c out"
      unfolding unf wins bindE_Inr out(1) mp using out(2) by blast
  }
  {
    assume "\<not> (sh dvd ph \<and> sw dvd pw)"
    then have l: "length (map snd (map g ?pos)) \<noteq> (ph div sh) * (pw div sw)" using eqv by simp
    have "stack_windows n (ph div sh) (pw div sw) c (map snd (map g ?pos)) = Inl ValueError"
      using stack_windows_eq(2) [OF s1 h1 pos(1) pos(4) l] .
    then show "MaxPool2D_forward_sized x padded sh sw kh kw = Inl ValueError"
      unfolding unf wins bindE_Inr by (simp only: bindE_Inl)
  }
qed

subsection \<open>Edge padding and output sizes\<close>

lemma np_pad_edge_shape:
  assumes "has_shape4 n h w c a" "0 < n" "0 < h" "0 < w"
    and "0 \<le> p0" "0 \<le> p1" "0 \<le> p2" "0 \<le> p3"
  shows "\<exists>padded. np_pad_edge [p0, p1, p2, p3] a = Inr padded \<and>
           has_shape4 n (h + nat p0 + nat p1) (w + nat p2 + nat p3) c padded"
proof -
  have s: "shape4 a = (n, h, w, c)" using assms(1-4) by (rule shape4_has_shape4)
  have row: "\<And>img row. img \<in> set a \<Longrightarrow> row \<in> set img \<Longrightarrow>
      length row = w \<and> (\<forall>px\<in>set row. length px = c) \<and> hd row \<in> set row \<and> last row \<in> set row"
    using assms(1,4) by (fastforce simp: has_shape4_def list_all_iff)
  have img: "\<And>img. img \<in> set a \<Longrightarrow> length img = h \<and> hd img \<in> set img \<and> last img \<in> set img"
    using assms(1,3) by (fastforce simp: has_shape4_def list_all_iff)
  have "has_shape4 n (h + nat p0 + nat p1) (w + nat p2 + nat p3) c
     (map (\<lambda>img.
        (let rows = map (\<lambda>row. replicate (nat p2) (hd row) @ row @ replicate (nat p3) (last row)) img
         in replicate (nat p0) (hd rows) @ rows @ replicate (nat p1) (last rows))) a)"
    unfolding has_shape4_def list_all_iff Let_def
  proof (intro conjI ballI)
    show "length (map (\<lambda>img. replicate (nat p0) (hd (map (\<lambda>row. replicate (nat p2) (hd row) @ row @ replicate (nat p3) (last row)) img)) @
            map (\<lambda>row. replicate (nat p2) (hd row) @ row @ replicate (nat p3) (last row)) img @
            replicate (nat p1) (last (map (\<lambda>row. replicate (nat p2) (hd row) @ row @ replicate (nat p3) (last row)) img))) a) = n"
      using assms(1) by (simp add: has_shape4_def)
  next
    fix img' assume "img' \<in> set (map (\<lambda>img. replicate (nat p0) (hd (map (\<lambda>row. replicate (nat p2) (hd row) @ row @ replicate (nat p3) (last row)) img)) @
            map (\<lambda>row. replicate (nat p2) (hd row) @ row @ replicate (nat p3) (last row)) img @
            replicate (nat p1) (last (map (\<lambda>row. replicate (nat p2) (hd row) @ row @ replicate (nat p3) (last row)) img))) a)"
    then obtain img where im: "img \<in> set a" and eq: "img' = replicate (nat p0) (hd (map (\<lambda>row. replicate (nat p2) (hd row) @ row @ replicate (nat p3) (last row)) img)) @
            map (\<lambda>row. replicate (nat p2) (hd row) @ row @ replicate (nat p3) (last row)) img @
            replicate (nat p1) (last (map (\<lambda>row. replicate (nat p2) (hd row) @ row @ replicate (nat p3) (last row)) img))"
      by auto
    let ?f = "\<lambda>row. replicate (nat p2) (hd row) @ row @ replicate (nat p3) (last row)"
    have ne: "img \<noteq> []" using img [OF im] assms(3) by auto
    have hdl: "hd (map ?f img) = ?f (hd img)" "last (map ?f img) = ?f (last img)"
      using ne by (simp_all add: hd_map last_map)
    show "length img' = h + nat p0 + nat p1" using eq img [OF im] by simp
    have sub: "set img' \<subseteq> ?f ` set img"
      unfolding eq hdl using img [OF im] by auto
    {
      fix row' assume "row' \<in> set img'"
      then obtain row where r: "row \<in> set img" "row' = ?f row" using sub by auto
      show "length row' = w + nat p2 + nat p3" using r row [OF im r(1)] by simp
      fix px assume "px \<in> set row'"
      then have "px \<in> set row" using r row [OF im r(1)] by auto
      then show "length px = c" using row [OF im r(1)] by simp
    }
  qed
  then show ?thesis
    using assms s by (simp add: np_pad_edge_def)
qed

lemma py_int_quotient:
  assumes "0 \<le> x" "0 < s"
  shows "py_int (real_of_int x / real s + 1) = x div int s + 1"
proof -
  have "0 \<le> real_of_int x / real s + 1" using assms by simp
  then have "py_int (real_of_int x / real s + 1) = \<lfloor>real_of_int x / real s + 1\<rfloor>"
    by (simp add: py_int_def)
  also have "\<dots> = \<lfloor>real_of_int x / real_of_int (int s)\<rfloor> + 1" by simp
  also have "\<dots> = x div int s + 1" by (simp only: floor_divide_of_int_eq)
  finally show ?thesis .
qed

lemma length_py_range_conv:
  assumes "k \<le> p" "0 < s"
  shows "length (py_range (int p - int k + 1) s) = (p - k) div s + 1"
proof -
  have e: "int p - int k + 1 + int s - 1 = int (p - k) + int s"
    using assms by (simp add: of_nat_diff)
  have "(int (p - k) + int s) div int s = int (p - k) div int s + 1"
    using assms(2) by simp
  also have "\<dots> = int ((p - k) div s + 1)" by (simp add: zdiv_int)
  finally have "(int p - int k + 1 + int s - 1) div int s = int ((p - k) div s + 1)"
    by (simp only: e)
  then show ?thesis unfolding py_range_def by (simp only: length_map length_upt nat_int diff_zero)
qed

lemma py_range_conv_bound:
  assumes "k \<le> (p::nat)" "0 < s" "i < (p - k) div s + 1"
  shows "i * s + k \<le> p"
proof -
  have "i < length (py_range (int p - int k + 1) s)" using assms by (simp add: length_py_range_conv)
  then have "int (i * s) < int p - int k + 1" using assms(2) by (intro py_range_bound)
  then have "int (i * s + k) \<le> int p" by simp
  then show ?thesis by (simp only: of_nat_le_iff)
qed

subsection \<open>Conv2D.forward\<close>

lemma Conv2D_patches_Inr:
  assumes p: "has_shape4 n ph pw c padded"
    and pos: "0 < n" "0 < ph" "0 < pw" "0 < c" "0 < kh" "0 < kw" "0 < sh" "0 < sw"
    and fit: "kh \<le> ph" "kw \<le> pw"
  shows "\<exists>patches. Conv2D_patches padded kh kw sh sw (kh * kw * c) = Inr patches \<and>
           length patches = (ph - kh) div sh + 1 \<and>
           (\<forall>rp\<in>set patches. length rp = (pw - kw) div sw + 1 \<and>
              (\<forall>m\<in>set rp. has_shape2 n (kh * kw * c) m))"
proof -
  let ?rows = "py_range (int ph - int kh + 1) sh"
  let ?cols = "py_range (int pw - int kw + 1) sw"
  let ?sl = "\<lambda>row col. map (\<lambda>img. map (py_slice (int col) (int col + int kw))
                          (py_slice (int row) (int row + int kh) img)) padded"
  let ?g = "\<lambda>row col. rows_of n (kh * kw * c) (flatten4 (?sl row col))"
  have sp: "shape4 padded = (n, ph, pw, c)" using p pos by (intro shape4_has_shape4)
  have lr: "length ?rows = (ph - kh) div sh + 1" using fit pos by (intro length_py_range_conv)
  have lc: "length ?cols = (pw - kw) div sw + 1" using fit pos by (intro length_py_range_conv)
  have rb: "row + kh \<le> ph" if "row \<in> set ?rows" for row
  proof -
    from that obtain i where i: "i < length ?rows" "?rows ! i = row"
      unfolding in_set_conv_nth by blast
    then have "row = i * sh" using py_range_nth [of i _ sh] by simp
    then show ?thesis using py_range_conv_bound [OF fit(1) pos(7), of i] i lr by simp
  qed
  have cb: "col + kw \<le> pw" if "col \<in> set ?cols" for col
  proof -
    from that obtain i where i: "i < length ?cols" "?cols ! i = col"
      unfolding in_set_conv_nth by blast
    then have "col = i * sw" using py_range_nth [of i _ sw] by simp
    then show ?thesis using py_range_conv_bound [OF fit(2) pos(8), of i] i lc by simp
  qed
  have one: "reshape_cols (kh * kw * c) (flatten4 (?sl row col)) = Inr (?g row col) \<and>
             has_shape2 n (kh * kw * c) (?g row col)"
    if "row \<in> set ?rows" "col \<in> set ?cols" for row col
  proof -
    have r: "row < ph" "col < pw" using rb [OF that(1)] cb [OF that(2)] pos by simp_all
    have "has_shape4 n (min kh (ph - row)) (min kw (pw - col)) c (?sl row col)"
      using p r by (rule window_shape)
    moreover have "min kh (ph - row) = kh" "min kw (pw - col) = kw"
      using rb [OF that(1)] cb [OF that(2)] by simp_all
    ultimately have hs: "has_shape4 n kh kw c (?sl row col)" by simp
    have len: "length (flatten4 (?sl row col)) = n * (kh * kw * c)"
      unfolding length_flatten4 [OF hs] by (simp add: mult.assoc)
    have k: "0 < kh * kw * c" using pos by simp
    have "reshape_cols (kh * kw * c) (flatten4 (?sl row col)) = Inr (?g row col)"
      using len k by (simp add: reshape_cols_def)
    moreover have "has_shape2 n (kh * kw * c) (?g row col)"
      using len by (intro has_shape2_rows_of) simp
    ultimately show ?thesis by simp
  qed
  have inner: "mapE (\<lambda>col. reshape_cols (kh * kw * c) (flatten4 (?sl row col))) ?cols =
      Inr (map (?g row) ?cols)" if "row \<in> set ?rows" for row
  proof (rule mapE_Inr)
    fix col assume "col \<in> set ?cols"
    then show "reshape_cols (kh * kw * c) (flatten4 (?sl row col)) = Inr (?g row col)"
      using one [OF that] by simp
  qed
  have "mapE (\<lambda>row. mapE (\<lambda>col. reshape_cols (kh * kw * c) (flatten4 (?sl row col))) ?cols) ?rows =
      Inr (map (\<lambda>row. map (?g row) ?cols) ?rows)"
  proof (rule mapE_Inr)
    fix row assume "row \<in> set ?rows"
    then show "mapE (\<lambda>col. reshape_cols (kh * kw * c) (flatten4 (?sl row col))) ?cols =
      Inr (map (?g row) ?cols)" by (rule inner)
  qed
  then have "Conv2D_patches padded kh kw sh sw (kh * kw * c) = Inr (map (\<lambda>row. map (?g row) ?cols) ?rows)"
    by (simp add: Conv2D_patches_def sp)
  moreover have "\<forall>rp\<in>set (map (\<lambda>row. map (?g row) ?cols) ?rows).
       length rp = (pw - kw) div sw + 1 \<and> (\<forall>m\<in>set rp. has_shape2 n (kh * kw * c) m)"
    using one lc by auto
  ultimately show ?thesis using lr by auto
qed

lemma Conv2D_X_matrix_Inr:
  assumes "length patches = oh" "0 < oh" "0 < ow" "0 < n"
    and "\<forall>rp\<in>set patches. length rp = ow \<and> (\<forall>m\<in>set rp. has_shape2 n k m)"
  shows "\<exists>X. Conv2D_X_matrix patches = Inr X \<and> has_shape2 (n * oh * ow) k X"
proof -
  let ?X = "concat (map (\<lambda>i. concat (map (\<lambda>rp. map (\<lambda>m. m ! i) rp) patches))
                       [0..<length (first (first patches))])"
  have ne: "patches \<noteq> []" using assms(1,2) by auto
  then have f1: "first patches \<in> set patches" by (cases patches) simp_all
  then have lf: "length (first patches) = ow" using assms(5) by simp
  then have ne2: "first patches \<noteq> []" using assms(3) by auto
  then have "first (first patches) \<in> set (first patches)" by (cases "first patches") simp_all
  then have ln: "length (first (first patches)) = n"
    using assms(5) f1 by (auto simp: has_shape2_iff)
  have inner: "length (concat (map (\<lambda>rp. map (\<lambda>m. m ! i) rp) patches)) = oh * ow" for i
  proof -
    have "length (concat (map (\<lambda>rp. map (\<lambda>m. m ! i) rp) patches)) =
          length (map (\<lambda>rp. map (\<lambda>m. m ! i) rp) patches) * ow"
      using assms(5) by (intro concat_uniform_length) auto
    then show ?thesis using assms(1) by simp
  qed
  have "length ?X = length (map (\<lambda>i. concat (map (\<lambda>rp. map (\<lambda>m. m ! i) rp) patches)) [0..<n]) * (oh * ow)"
    unfolding ln by (intro concat_uniform_length) (auto simp: inner)
  then have len: "length ?X = n * oh * ow" by simp
  have rows: "\<forall>r\<in>set ?X. length r = k"
    unfolding ln using assms(5) by (auto simp: has_shape2_iff)
  have "has_shape2 (n * oh * ow) k ?X"
    using len rows by (simp add: has_shape2_def list_all_iff)
  then show ?thesis using ne ne2 by (simp add: Conv2D_X_matrix_def)
qed

lemma length_vecmat: "length (vecmat v b) = length (first b)"
  by (simp add: vecmat_def)

lemma matmul_Inr:
  assumes "has_shape2 m k a" "has_shape2 k c b" "0 < k"
  shows "matmul a b = Inr (map (\<lambda>r. vecmat r b) a)"
    and "has_shape2 m c (map (\<lambda>r. vecmat r b) a)"
proof -
  have lb: "length b = k" using assms(2) by (simp add: has_shape2_def)
  have "length (first b) = c" using assms(2,3) by (simp add: has_shape2_iff first_nth)
  then show "has_shape2 m c (map (\<lambda>r. vecmat r b) a)"
    using assms(1) by (simp add: has_shape2_def list_all_iff length_vecmat)
  show "matmul a b = Inr (map (\<lambda>r. vecmat r b) a)"
    using assms(1) lb by (simp add: matmul_def has_shape2_def)
qed

lemma length_concat_shape2: "has_shape2 m c a \<Longrightarrow> length (concat a) = m * c"
  using concat_uniform_length [of a c] by (simp add: has_shape2_def list_all_iff)

lemma reshape_rows_kernel:
  assumes "has_shape4 kh kw c oc w" "0 < kh" "0 < kw" "0 < c"
  shows "reshape_rows (kh * kw * c) (flatten4 w) = Inr (rows_of (kh * kw * c) oc (flatten4 w))"
    and "has_shape2 (kh * kw * c) oc (rows_of (kh * kw * c) oc (flatten4 w))"
proof -
  have len: "length (flatten4 w) = (kh * kw * c) * oc"
    using length_flatten4 [OF assms(1)] by simp
  have k: "0 < kh * kw * c" using assms by simp
  show "reshape_rows (kh * kw * c) (flatten4 w) = Inr (rows_of (kh * kw * c) oc (flatten4 w))"
    using len k by (simp add: reshape_rows_def)
  show "has_shape2 (kh * kw * c) oc (rows_of (kh * kw * c) oc (flatten4 w))"
    using len by (intro has_shape2_rows_of) simp
qed

lemma Conv2D_forward_sized_Inr:
  assumes x: "has_shape4 n h w c x" and p: "has_shape4 n ph pw c padded"
    and k: "has_shape4 kh kw c oc kernel_w"
    and pos: "0 < n" "0 < h" "0 < w" "0 < c" "0 < ph" "0 < pw" "0 < kh" "0 < kw" "0 < sh" "0 < sw"
    and fit: "kh \<le> ph" "kw \<le> pw"
    and oc: "last (kernel self) = oc"
  shows "\<exists>X W out.
           Conv2D_forward_sized self x kh kw sh sw pad padded kernel_w =
             Inr (\<lparr>cc_in_n = n, cc_in_img_size = (h, w, c), cc_kernel_size = (kh, kw, c),
                   cc_stride = (sh, sw), cc_pad = pad, cc_pad_img_size = (ph, pw, c),
                   cc_out_img_size = (int ((ph - kh) div sh + 1), int ((pw - kw) div sw + 1), oc),
                   cc_X_matrix = X, cc_W_matrix = W\<rparr>, out) \<and>
           has_shape2 (n * ((ph - kh) div sh + 1) * ((pw - kw) div sw + 1)) (kh * kw * c) X \<and>
           has_shape2 (kh * kw * c) oc W \<and>
           has_shape4 n ((ph - kh) div sh + 1) ((pw - kw) div sw + 1) oc out"
proof -
  let ?oh = "(ph - kh) div sh + 1" and ?ow = "(pw - kw) div sw + 1"
  let ?K = "kh * kw * c"
  have sx: "shape4 x = (n, h, w, c)" using x pos by (intro shape4_has_shape4)
  have sp: "shape4 padded = (n, ph, pw, c)" using p pos by (intro shape4_has_shape4)
  have sk: "shape4 kernel_w = (kh, kw, c, oc)" using k pos by (intro shape4_has_shape4)
  have K: "0 < ?K" using pos by simp
  obtain patches where pt: "Conv2D_patches padded kh kw sh sw ?K = Inr patches"
    "length patches = ?oh"
    "\<forall>rp\<in>set patches. length rp = ?ow \<and> (\<forall>m\<in>set rp. has_shape2 n ?K m)"
    using Conv2D_patches_Inr [OF p pos(1,5,6,4,7,8,9,10) fit] by blast
  obtain X where X: "Conv2D_X_matrix patches = Inr X" "has_shape2 (n * ?oh * ?ow) ?K X"
    using Conv2D_X_matrix_Inr [OF pt(2) _ _ pos(1) pt(3)] by auto
  let ?W = "rows_of ?K oc (flatten4 kernel_w)"
  note W = reshape_rows_kernel [OF k pos(7,8,4)]
  note M = matmul_Inr [OF X(2) W(2) K]
  let ?prod = "map (\<lambda>r. vecmat r ?W) X"
  have lp: "length (concat ?prod) = n * ?oh * ?ow * oc"
    using length_concat_shape2 [OF M(2)] by simp
  let ?out = "rows_of n ?oh (rows_of (n * ?oh) ?ow (rows_of (n * ?oh * ?ow) oc (concat ?prod)))"
  have r4: "reshape4 (int n) (int ?oh) (int ?ow) (int oc) (concat ?prod) = Inr ?out"
    using lp by (rule reshape4_Inr)
  have so: "has_shape4 n ?oh ?ow oc ?out" using lp by (rule rows4_shape)
  have oh: "py_int (real_of_int (int ph - int kh) / real sh + 1) = int ?oh"
    using py_int_quotient [of "int ph - int kh" sh] fit pos
    by (simp add: zdiv_int of_nat_diff)
  have ow: "py_int (real_of_int (int pw - int kw) / real sw + 1) = int ?ow"
    using py_int_quotient [of "int pw - int kw" sw] fit pos
    by (simp add: zdiv_int of_nat_diff)
  have "Conv2D_forward_sized self x kh kw sh sw pad padded kernel_w =
      Inr (\<lparr>cc_in_n = n, cc_in_img_size = (h, w, c), cc_kernel_size = (kh, kw, c),
            cc_stride = (sh, sw), cc_pad = pad, cc_pad_img_size = (ph, pw, c),
            cc_out_img_size = (int ?oh, int ?ow, oc),
            cc_X_matrix = X, cc_W_matrix = ?W\<rparr>, ?out)"
    unfolding Conv2D_forward_sized_def sx sp sk Let_def prod.case oh ow oc
      pt(1) bindE_Inr X(1) W(1) M(1) r4 ..
  then show ?thesis using X(2) W(2) so by blast
qed

lemma add_bias_Inr:
  assumes "has_shape4 n h w c outputs" "0 < n" "0 < h" "0 < w" "length b = c"
  shows "\<exists>out. add_bias outputs b = Inr out \<and> has_shape4 n h w c out"
proof -
  have s: "shape4 outputs = (n, h, w, c)" using assms(1-4) by (rule shape4_has_shape4)
  have "has_shape4 n h w c (map (map (map (\<lambda>px. map2 (+) px b))) outputs)"
    using assms(1,5) by (auto simp: has_shape4_def list_all_iff)
  then show ?thesis using assms(5) by (simp add: add_bias_def s)
qed

lemma Conv2D_forward_ok:
  assumes x: "has_shape4 n h w c x"
    and pos: "0 < n" "0 < h" "0 < w" "0 < c" "0 < kh" "0 < kw" "0 < oc" "0 < sh" "0 < sw"
    and ker: "kernel layer = [kh, kw, c, oc]" and str: "stride layer = [sh, sw]"
    and par: "if is_init layer then params_w layer = Some kernel_w \<and> params_b layer = Some b
              else w_init layer (kernel layer) = kernel_w \<and> b_init layer oc = b"
    and kw: "has_shape4 kh kw c oc kernel_w" and lb: "length b = oc"
    and pad: "Conv2D_get_padding [int kh, int kw] (padding_mode layer) = Inr (printed, Some [p0, p1, p2, p3])"
    and nonneg: "0 \<le> p0" "0 \<le> p1" "0 \<le> p2" "0 \<le> p3"
    and fit: "kh \<le> h + nat p0 + nat p1" "kw \<le> w + nat p2 + nat p3"
  shows "\<exists>layer' X W out.
           Conv2D_forward layer x = (layer', Inr out) \<and>
           has_shape4 n ((h + nat p0 + nat p1 - kh) div sh + 1) ((w + nat p2 + nat p3 - kw) div sw + 1) oc out \<and>
           params_w layer' = Some kernel_w \<and>
           cache layer' =
             Some \<lparr>cc_in_n = n, cc_in_img_size = (h, w, c), cc_kernel_size = (kh, kw, c),
                   cc_stride = (sh, sw), cc_pad = [p0, p1, p2, p3],
                   cc_pad_img_size = (h + nat p0 + nat p1, w + nat p2 + nat p3, c),
                   cc_out_img_size = (int ((h + nat p0 + nat p1 - kh) div sh + 1),
                                      int ((w + nat p2 + nat p3 - kw) div sw + 1), oc),
                   cc_X_matrix = X, cc_W_matrix = W\<rparr> \<and>
           has_shape2 (n * ((h + nat p0 + nat p1 - kh) div sh + 1) * ((w + nat p2 + nat p3 - kw) div sw + 1))
             (kh * kw * c) X \<and>
           has_shape2 (kh * kw * c) oc W"
proof -
  let ?ph = "h + nat p0 + nat p1" and ?pw = "w + nat p2 + nat p3"
  define self where "self = (if is_init layer then layer
     else layer\<lparr>params_w := Some kernel_w, params_b := Some b, is_init := True\<rparr>)"
  have init: "(if is_init layer then (layer, Inr ()) else Conv2D_init_parameters layer) = (self, Inr ())"
    using par ker by (cases "is_init layer") (simp_all add: self_def Conv2D_init_parameters_def Let_def)
  have sf: "kernel self = [kh, kw, c, oc]" "stride self = [sh, sw]"
    "padding_mode self = padding_mode layer" "params_w self = Some kernel_w"
    "params_b self = Some b"
    using par ker str by (auto simp: self_def)
  obtain padded where pd: "np_pad_edge [p0, p1, p2, p3] x = Inr padded"
    "has_shape4 n ?ph ?pw c padded"
    using np_pad_edge_shape [OF x pos(1-3) nonneg] by blast
  have pp: "0 < ?ph" "0 < ?pw" using pos by simp_all
  have lk: "last (kernel self) = oc" by (simp add: sf)
  obtain X W out0 where sz:
    "Conv2D_forward_sized self x kh kw sh sw [p0, p1, p2, p3] padded kernel_w =
       Inr (\<lparr>cc_in_n = n, cc_in_img_size = (h, w, c), cc_kernel_size = (kh, kw, c),
             cc_stride = (sh, sw), cc_pad = [p0, p1, p2, p3], cc_pad_img_size = (?ph, ?pw, c),
             cc_out_img_size = (int ((?ph - kh) div sh + 1), int ((?pw - kw) div sw + 1), oc),
             cc_X_matrix = X, cc_W_matrix = W\<rparr>, out0)"
    "has_shape2 (n * ((?ph - kh) div sh + 1) * ((?pw - kw) div sw + 1)) (kh * kw * c) X"
    "has_shape2 (kh * kw * c) oc W"
    "has_shape4 n ((?ph - kh) div sh + 1) ((?pw - kw) div sw + 1) oc out0"
    using Conv2D_forward_sized_Inr [OF x pd(2) kw pos(1-4) pp pos(5,6,8,9) fit lk, of "[p0, p1, p2, p3]"]
    by blast
  have body: "Conv2D_forward_body self x =
       Inr (\<lparr>cc_in_n = n, cc_in_img_size = (h, w, c), cc_kernel_size = (kh, kw, c),
             cc_stride = (sh, sw), cc_pad = [p0, p1, p2, p3], cc_pad_img_size = (?ph, ?pw, c),
             cc_out_img_size = (int ((?ph - kh) div sh + 1), int ((?pw - kw) div sw + 1), oc),
             cc_X_matrix = X, cc_W_matrix = W\<rparr>, out0)"
    using pos(8,9) by (simp add: Conv2D_forward_body_def sf pad pd(1) sz(1))
  obtain out where out: "add_bias out0 b = Inr out"
    "has_shape4 n ((?ph - kh) div sh + 1) ((?pw - kw) div sw + 1) oc out"
    using add_bias_Inr [OF sz(4) pos(1) _ _ lb] by auto
  have "Conv2D_forward layer x =
      (self\<lparr>cache := Some \<lparr>cc_in_n = n, cc_in_img_size = (h, w, c), cc_kernel_size = (kh, kw, c),
             cc_stride = (sh, sw), cc_pad = [p0, p1, p2, p3], cc_pad_img_size = (?ph, ?pw, c),
             cc_out_img_size = (int ((?ph - kh) div sh + 1), int ((?pw - kw) div sw + 1), oc),
             cc_X_matrix = X, cc_W_matrix = W\<rparr>\<rparr>, Inr out)"
    unfolding Conv2D_forward_def init by (simp add: body sf out(1))
  then show ?thesis using out(2) sz(2,3) sf(4) by auto
qed

subsection \<open>Region updates in a loop\<close>

lemma flatten4_nth:
  assumes "has_shape4 n h w c t" "b < n" "y < h" "x < w" "ch < c"
  shows "flatten4 t ! (((b * h + y) * w + x) * c + ch) = t ! b ! y ! x ! ch"
proof -
  have u1: "\<And>img. img \<in> set t \<Longrightarrow> length img = h"
    using assms(1) by (auto simp: has_shape4_def list_all_iff)
  have u2: "\<And>row. row \<in> set (concat t) \<Longrightarrow> length row = w"
    using assms(1) by (auto simp: has_shape4_def list_all_iff)
  have u3: "\<And>px. px \<in> set (concat (concat t)) \<Longrightarrow> length px = c"
    using assms(1) by (auto simp: has_shape4_def list_all_iff)
  have l0: "length t = n" using assms(1) by (simp add: has_shape4_def)
  have l1: "length (concat t) = n * h" using concat_uniform_length [of t h] u1 l0 by simp
  have l2: "length (concat (concat t)) = n * h * w"
    using concat_uniform_length [of "concat t" w] u2 l1 by simp
  have by': "b * h + y < n * h" using assms(2,3) by (rule index_bound)
  have byx: "(b * h + y) * w + x < n * h * w" using by' assms(4) by (rule index_bound)
  have e1: "concat t ! (b * h + y) = t ! b ! y"
    using u1 assms(2,3) l0 by (intro concat_uniform_nth) simp_all
  have e2: "concat (concat t) ! ((b * h + y) * w + x) = concat t ! (b * h + y) ! x"
    using u2 by' assms(4) l1 by (intro concat_uniform_nth) simp_all
  have e3: "concat (concat (concat t)) ! (((b * h + y) * w + x) * c + ch) =
            concat (concat t) ! ((b * h + y) * w + x) ! ch"
    using u3 byx assms(5) l2 by (intro concat_uniform_nth) simp_all
  show ?thesis unfolding flatten4_def e3 e2 e1 ..
qed

lemma update_region_nth4:
  assumes "has_shape4 n h w c buf" "b < n" "y < h" "x < w" "ch < c"
    and "col \<le> y \<and> y < col + kh \<and> row \<le> x \<and> x < row + kw \<Longrightarrow>
           length (patch ! b ! (y - col) ! (x - row)) = c"
  shows "update_region f col kh row kw buf patch ! b ! y ! x ! ch =
           (if col \<le> y \<and> y < col + kh \<and> row \<le> x \<and> x < row + kw
            then f (buf ! b ! y ! x ! ch) (patch ! b ! (y - col) ! (x - row) ! ch)
            else buf ! b ! y ! x ! ch)"
proof -
  have l: "b < length buf" "y < length (buf ! b)" "x < length (buf ! b ! y)"
    "length (buf ! b ! y ! x) = c"
    using assms(1-4) by (auto simp: has_shape4_iff)
  show ?thesis
    using assms(5,6) l(4) unfolding update_region_nth [OF l(1-3)] by simp
qed

lemma foldl_overwrite:
  assumes "\<And>v d. v \<in> set ws \<Longrightarrow> has_shape4 n h w c d \<Longrightarrow>
             has_shape4 n h w c (stp d v) \<and>
             (\<forall>b<n. \<forall>y<h. \<forall>x<w. \<forall>ch<c.
                stp d v ! b ! y ! x ! ch = (if cov v y x then F b y x ch else d ! b ! y ! x ! ch))"
    and "has_shape4 n h w c d"
  shows "has_shape4 n h w c (foldl stp d ws) \<and>
         (\<forall>b<n. \<forall>y<h. \<forall>x<w. \<forall>ch<c.
            foldl stp d ws ! b ! y ! x ! ch =
              (if \<exists>v\<in>set ws. cov v y x then F b y x ch else d ! b ! y ! x ! ch))"
  using assms
proof (induction ws arbitrary: d)
  case Nil
  then show ?case by simp
next
  case (Cons v ws)
  have st: "has_shape4 n h w c (stp d v)"
    "\<forall>b<n. \<forall>y<h. \<forall>x<w. \<forall>ch<c.
        stp d v ! b ! y ! x ! ch = (if cov v y x then F b y x ch else d ! b ! y ! x ! ch)"
    using Cons.prems(1) [of v d] Cons.prems(2) by simp_all
  have ih: "has_shape4 n h w c (foldl stp (stp d v) ws) \<and>
         (\<forall>b<n. \<forall>y<h. \<forall>x<w. \<forall>ch<c.
            foldl stp (stp d v) ws ! b ! y ! x ! ch =
              (if \<exists>u\<in>set ws. cov u y x then F b y x ch else stp d v ! b ! y ! x ! ch))"
    using Cons.prems(1) st(1) by (intro Cons.IH) simp_all
  show ?case
    using ih st(2) by auto
qed

lemma foldl_accumulate:
  assumes "\<And>v d. v \<in> set ws \<Longrightarrow> has_shape4 n h w c d \<Longrightarrow>
             has_shape4 n h w c (stp d v) \<and>
             (\<forall>b<n. \<forall>y<h. \<forall>x<w. \<forall>ch<c.
                stp d v ! b ! y ! x ! ch = d ! b ! y ! x ! ch + G v b y x ch)"
    and "has_shape4 n h w c d"
  shows "has_shape4 n h w c (foldl stp d ws) \<and>
         (\<forall>b<n. \<forall>y<h. \<forall>x<w. \<forall>ch<c.
            foldl stp d ws ! b ! y ! x ! ch =
              d ! b ! y ! x ! ch + (\<Sum>v\<leftarrow>ws. G v b y x ch :: real))"
  using assms
proof (induction ws arbitrary: d)
  case Nil
  then show ?case by simp
next
  case (Cons v ws)
  have st: "has_shape4 n h w c (stp d v)"
    "\<forall>b<n. \<forall>y<h. \<forall>x<w. \<forall>ch<c.
        stp d v ! b ! y ! x ! ch = d ! b ! y ! x ! ch + G v b y x ch"
    using Cons.prems(1) [of v d] Cons.prems(2) by simp_all
  have ih: "has_shape4 n h w c (foldl stp (stp d v) ws) \<and>
         (\<forall>b<n. \<forall>y<h. \<forall>x<w. \<forall>ch<c.
            foldl stp (stp d v) ws ! b ! y ! x ! ch =
              stp d v ! b ! y ! x ! ch + (\<Sum>u\<leftarrow>ws. G u b y x ch))"
    using Cons.prems(1) st(1) by (intro Cons.IH) simp_all
  show ?case
    using ih st(2) by (simp add: add.assoc)
qed

lemma np_zeros4_shape: "has_shape4 n h w c (np_zeros4 n h w c)"
  by (simp add: np_zeros4_def has_shape4_def list_all_iff)

lemma np_zeros4_nth:
  "b < n \<Longrightarrow> y < h \<Longrightarrow> x < w \<Longrightarrow> ch < c \<Longrightarrow> np_zeros4 n h w c ! b ! y ! x ! ch = 0"
  by (simp add: np_zeros4_def)

subsection \<open>Conv2D.backward\<close>

lemma transpose_m_shape:
  assumes "has_shape2 m k a" "0 < m"
  shows "has_shape2 k m (transpose_m a)"
proof -
  have "length (first a) = k" using assms by (simp add: has_shape2_iff first_nth)
  then show ?thesis using assms(1) by (simp add: transpose_m_def has_shape2_def list_all_iff)
qed

lemma matmul4_Inr:
  assumes "has_shape4 n h w k a" "has_shape2 k c b" "0 < k"
  shows "matmul4 a b = Inr (map (map (map (\<lambda>v. vecmat v b))) a)"
    and "has_shape4 n h w c (map (map (map (\<lambda>v. vecmat v b))) a)"
proof -
  have lb: "length b = k" using assms(2) by (simp add: has_shape2_def)
  have lf: "length (first b) = c" using assms(2,3) by (simp add: has_shape2_iff first_nth)
  show "matmul4 a b = Inr (map (map (map (\<lambda>v. vecmat v b))) a)"
    using assms(1) lb by (simp add: matmul4_def has_shape4_def list_all_iff)
  show "has_shape4 n h w c (map (map (map (\<lambda>v. vecmat v b))) a)"
    using assms(1) lf by (simp add: has_shape4_def list_all_iff length_vecmat)
qed

lemma enumerate_py_range:
  "enumerate 0 (py_range stop s) = map (\<lambda>i. (i, i * s)) [0..<length (py_range stop s)]"
  by (rule nth_equalityI) (simp_all add: nth_enumerate_eq py_range_nth)

lemma py_slice_crop:
  assumes "0 \<le> p" "0 \<le> q" "length xs = k + nat p + nat q"
  shows "length (py_slice p (int (length xs) - q) xs) = k"
    and "j < k \<Longrightarrow> py_slice p (int (length xs) - q) xs ! j = xs ! (j + nat p)"
proof -
  define P where "P = nat p"
  have pe: "p = int P" using assms(1) by (simp add: P_def)
  have he: "int (length xs) - q = int P + int k" using assms by (simp add: P_def)
  have lx: "length xs - P = k + nat q" using assms(3) by (simp add: P_def)
  show "length (py_slice p (int (length xs) - q) xs) = k"
    unfolding he unfolding pe length_py_slice lx by simp
  show "j < k \<Longrightarrow> py_slice p (int (length xs) - q) xs ! j = xs ! (j + nat p)"
  proof -
    assume j: "j < k"
    then have "P + j < length xs" using assms(3) by (simp add: P_def)
    then have "py_slice (int P) (int P + int k) xs ! j = xs ! (P + j)"
      using j by (intro py_slice_nth)
    then show ?thesis unfolding he unfolding pe by (simp add: P_def add.commute)
  qed
qed

lemma Conv2D_scatter_step_eq:
  assumes dx: "has_shape4 n oh ow (kh * kw * c) dX"
    and pos: "0 < n" "0 < oh" "0 < ow"
    and ij: "i < oh" "j < ow"
  shows "Conv2D_scatter_step n kh kw c dX (i, col) d (j, row) =
           Inr (update_region (+) col kh row kw d
                 (rows_of n kh (rows_of (n * kh) kw (rows_of (n * kh * kw) c
                    (concat (map (\<lambda>img. img ! i ! j) dX))))))"
    and "\<And>b a bb ch. b < n \<Longrightarrow> a < kh \<Longrightarrow> bb < kw \<Longrightarrow> ch < c \<Longrightarrow>
           rows_of n kh (rows_of (n * kh) kw (rows_of (n * kh * kw) c
             (concat (map (\<lambda>img. img ! i ! j) dX)))) ! b ! a ! bb ! ch =
           dX ! b ! i ! j ! ((a * kw + bb) * c + ch)"
    and "has_shape4 n kh kw c (rows_of n kh (rows_of (n * kh) kw (rows_of (n * kh * kw) c
             (concat (map (\<lambda>img. img ! i ! j) dX)))))"
proof -
  let ?flat = "concat (map (\<lambda>img. img ! i ! j) dX)"
  have sd: "shape4 dX = (n, oh, ow, kh * kw * c)" using dx pos by (intro shape4_has_shape4)
  have un: "length v = kh * kw * c" if "v \<in> set (map (\<lambda>img. img ! i ! j) dX)" for v
  proof -
    from that obtain b where "b < length dX" "v = dX ! b ! i ! j"
      by (auto simp: in_set_conv_nth)
    then show ?thesis using dx ij by (simp add: has_shape4_iff)
  qed
  have ld: "length dX = n" using dx by (simp add: has_shape4_def)
  have len: "length ?flat = n * kh * kw * c"
    using concat_uniform_length [of "map (\<lambda>img. img ! i ! j) dX" "kh * kw * c"] un ld
    by (simp add: mult.assoc)
  have r: "reshape4 (int n) (int kh) (int kw) (int c) ?flat =
        Inr (rows_of n kh (rows_of (n * kh) kw (rows_of (n * kh * kw) c ?flat)))"
    using len by (rule reshape4_Inr)
  show "Conv2D_scatter_step n kh kw c dX (i, col) d (j, row) =
           Inr (update_region (+) col kh row kw d
                 (rows_of n kh (rows_of (n * kh) kw (rows_of (n * kh * kw) c ?flat))))"
    using ij by (simp add: Conv2D_scatter_step_def sd r)
  show "has_shape4 n kh kw c (rows_of n kh (rows_of (n * kh) kw (rows_of (n * kh * kw) c ?flat)))"
    using len by (rule rows4_shape)
  fix b a bb ch assume b: "b < n" "a < kh" "bb < kw" "ch < c"
  have i1: "a * kw + bb < kh * kw" using b(2,3) by (rule index_bound)
  have i2: "(a * kw + bb) * c + ch < kh * kw * c" using i1 b(4) by (rule index_bound)
  have idx: "((b * kh + a) * kw + bb) * c + ch = b * (kh * kw * c) + ((a * kw + bb) * c + ch)"
    by (simp add: algebra_simps)
  have "rows_of n kh (rows_of (n * kh) kw (rows_of (n * kh * kw) c ?flat)) ! b ! a ! bb ! ch =
        ?flat ! (((b * kh + a) * kw + bb) * c + ch)"
    using len b by (rule rows4_nth)
  also have "\<dots> = ?flat ! (b * (kh * kw * c) + ((a * kw + bb) * c + ch))"
    by (simp only: idx)
  also have "\<dots> = map (\<lambda>img. img ! i ! j) dX ! b ! ((a * kw + bb) * c + ch)"
    using un b(1) ld i2 by (intro concat_uniform_nth) simp_all
  also have "\<dots> = dX ! b ! i ! j ! ((a * kw + bb) * c + ch)"
    using b(1) ld by simp
  finally show "rows_of n kh (rows_of (n * kh) kw (rows_of (n * kh * kw) c ?flat)) ! b ! a ! bb ! ch =
           dX ! b ! i ! j ! ((a * kw + bb) * c + ch)" .
qed

lemma sum_list_cong:
  "(\<And>v. v \<in> set xs \<Longrightarrow> f v = g v) \<Longrightarrow> sum_list (map f xs) = sum_list (map g xs)"
  by (induction xs) simp_all

lemma Conv2D_scatter_eq:
  assumes dx: "has_shape4 n oh ow (kh * kw * c) dX"
    and pos: "0 < n" "0 < oh" "0 < ow"
    and lr: "length (py_range stop_h sh) = oh" and lc: "length (py_range stop_w sw) = ow"
  shows "\<exists>d. Conv2D_scatter n kh kw c dX (py_range stop_h sh) (py_range stop_w sw)
               (np_zeros4 n ph pw c) = Inr d \<and>
             has_shape4 n ph pw c d \<and>
             (\<forall>b<n. \<forall>y<ph. \<forall>x<pw. \<forall>ch<c.
                d ! b ! y ! x ! ch = scatter_add_value kh kw sh sw c oh ow dX b y x ch)"
proof -
  let ?rows = "map (\<lambda>i. (i, i * sh)) [0..<oh]"
  let ?cols = "map (\<lambda>j. (j, j * sw)) [0..<ow]"
  let ?patch = "\<lambda>i j. rows_of n kh (rows_of (n * kh) kw (rows_of (n * kh * kw) c
                    (concat (map (\<lambda>img. img ! i ! j) dX))))"
  let ?stp = "\<lambda>icol d jrow. update_region (+) (snd icol) kh (snd jrow) kw d
                 (?patch (fst icol) (fst jrow))"
  let ?G = "\<lambda>icol jrow b y x ch.
      if snd icol \<le> y \<and> y < snd icol + kh \<and> snd jrow \<le> x \<and> x < snd jrow + kw
      then dX ! b ! fst icol ! fst jrow ! (((y - snd icol) * kw + (x - snd jrow)) * c + ch)
      else (0::real)"
  have er: "enumerate 0 (py_range stop_h sh) = ?rows" by (simp add: enumerate_py_range lr)
  have ec: "enumerate 0 (py_range stop_w sw) = ?cols" by (simp add: enumerate_py_range lc)
  have step: "Conv2D_scatter_step n kh kw c dX icol d jrow = Inr (?stp icol d jrow)"
    if "icol \<in> set ?rows" "jrow \<in> set ?cols" for icol jrow d
  proof -
    from that have "fst icol < oh" "fst jrow < ow" by auto
    then show ?thesis
      using Conv2D_scatter_step_eq(1) [OF dx pos, of "fst icol" "fst jrow" "snd icol" d "snd jrow"]
      by simp
  qed
  have inner: "foldE (Conv2D_scatter_step n kh kw c dX icol) d ?cols = Inr (foldl (?stp icol) d ?cols)"
    if "icol \<in> set ?rows" for icol d
  proof (rule foldE_Inr [where g = "?stp icol"])
    fix s jrow assume "jrow \<in> set ?cols"
    then show "Conv2D_scatter_step n kh kw c dX icol s jrow = Inr (?stp icol s jrow)"
      by (rule step [OF that])
  qed
  have outer: "foldE (\<lambda>d icol. foldE (Conv2D_scatter_step n kh kw c dX icol) d ?cols) d ?rows =
      Inr (foldl (\<lambda>d icol. foldl (?stp icol) d ?cols) d ?rows)" for d
  proof (rule foldE_Inr [where g = "\<lambda>d icol. foldl (?stp icol) d ?cols"])
    fix s icol assume "icol \<in> set ?rows"
    then show "foldE (Conv2D_scatter_step n kh kw c dX icol) s ?cols = Inr (foldl (?stp icol) s ?cols)"
      by (rule inner)
  qed
  have one: "has_shape4 n ph pw c (?stp icol d jrow) \<and>
       (\<forall>b<n. \<forall>y<ph. \<forall>x<pw. \<forall>ch<c.
          ?stp icol d jrow ! b ! y ! x ! ch = d ! b ! y ! x ! ch + ?G icol jrow b y x ch)"
    if "icol \<in> set ?rows" "jrow \<in> set ?cols" "has_shape4 n ph pw c d" for icol jrow d
  proof -
    from that have ij: "fst icol < oh" "fst jrow < ow" by auto
    note P = Conv2D_scatter_step_eq(2,3) [OF dx pos ij]
    have sh: "has_shape4 n ph pw c (?stp icol d jrow)"
      using that(3) P(2) by (intro update_region_shape) (auto simp: has_shape4_iff)
    have val: "?stp icol d jrow ! b ! y ! x ! ch = d ! b ! y ! x ! ch + ?G icol jrow b y x ch"
      if r: "b < n" "y < ph" "x < pw" "ch < c" for b y x ch
    proof -
      let ?cov = "snd icol \<le> y \<and> y < snd icol + kh \<and> snd jrow \<le> x \<and> x < snd jrow + kw"
      have lp: "length (?patch (fst icol) (fst jrow) ! b ! (y - snd icol) ! (x - snd jrow)) = c"
        if ?cov
      proof -
        from that have "y - snd icol < kh" "x - snd jrow < kw" by linarith+
        then show ?thesis using P(2) r(1) by (simp add: has_shape4_iff)
      qed
      have upd: "?stp icol d jrow ! b ! y ! x ! ch =
          (if ?cov then d ! b ! y ! x ! ch +
                 ?patch (fst icol) (fst jrow) ! b ! (y - snd icol) ! (x - snd jrow) ! ch
           else d ! b ! y ! x ! ch)"
        by (rule update_region_nth4 [OF \<open>has_shape4 n ph pw c d\<close> r lp])
      show ?thesis
      proof (cases ?cov)
        case True
        then have ab: "y - snd icol < kh" "x - snd jrow < kw" by linarith+
        have "?patch (fst icol) (fst jrow) ! b ! (y - snd icol) ! (x - snd jrow) ! ch =
          dX ! b ! fst icol ! fst jrow ! (((y - snd icol) * kw + (x - snd jrow)) * c + ch)"
          using r(1) ab r(4) by (rule P(1))
        then show ?thesis unfolding upd by (simp only: if_P [OF True])
      next
        case False
        show ?thesis unfolding upd by (simp only: if_not_P [OF False] add_0_right)
      qed
    qed
    show ?thesis using sh val by blast
  qed
  have in_acc: "has_shape4 n ph pw c (foldl (?stp icol) d ?cols) \<and>
       (\<forall>b<n. \<forall>y<ph. \<forall>x<pw. \<forall>ch<c.
          foldl (?stp icol) d ?cols ! b ! y ! x ! ch =
            d ! b ! y ! x ! ch + (\<Sum>jrow\<leftarrow>?cols. ?G icol jrow b y x ch))"
    if "icol \<in> set ?rows" "has_shape4 n ph pw c d" for icol d
    using one [OF that(1)] that(2)
    by (intro foldl_accumulate [where stp = "?stp icol" and G = "?G icol"]) blast+
  have out_acc: "has_shape4 n ph pw c (foldl (\<lambda>d icol. foldl (?stp icol) d ?cols) d ?rows) \<and>
       (\<forall>b<n. \<forall>y<ph. \<forall>x<pw. \<forall>ch<c.
          foldl (\<lambda>d icol. foldl (?stp icol) d ?cols) d ?rows ! b ! y ! x ! ch =
            d ! b ! y ! x ! ch + (\<Sum>icol\<leftarrow>?rows. \<Sum>jrow\<leftarrow>?cols. ?G icol jrow b y x ch))"
    if "has_shape4 n ph pw c d" for d
    using in_acc that
    by (intro foldl_accumulate [where stp = "\<lambda>d icol. foldl (?stp icol) d ?cols"
          and G = "\<lambda>icol b y x ch. \<Sum>jrow\<leftarrow>?cols. ?G icol jrow b y x ch"]) blast+
  let ?d = "foldl (\<lambda>d icol. foldl (?stp icol) d ?cols) (np_zeros4 n ph pw c) ?rows"
  have res: "Conv2D_scatter n kh kw c dX (py_range stop_h sh) (py_range stop_w sw)
               (np_zeros4 n ph pw c) = Inr ?d"
    unfolding Conv2D_scatter_def er ec by (rule outer)
  note acc = out_acc [OF np_zeros4_shape]
  have "?d ! b ! y ! x ! ch = scatter_add_value kh kw sh sw c oh ow dX b y x ch"
    if r: "b < n" "y < ph" "x < pw" "ch < c" for b y x ch
  proof -
    have "?d ! b ! y ! x ! ch =
        np_zeros4 n ph pw c ! b ! y ! x ! ch + (\<Sum>icol\<leftarrow>?rows. \<Sum>jrow\<leftarrow>?cols. ?G icol jrow b y x ch)"
      using acc r by blast
    also have "\<dots> = (\<Sum>icol\<leftarrow>?rows. \<Sum>jrow\<leftarrow>?cols. ?G icol jrow b y x ch)"
      using r by (simp add: np_zeros4_nth)
    also have "\<dots> = scatter_add_value kh kw sh sw c oh ow dX b y x ch"
      unfolding scatter_add_value_def by (simp add: comp_def cong: if_cong)
    finally show ?thesis .
  qed
  then show ?thesis using res acc by blast
qed

lemma crop_eq:
  assumes d: "has_shape4 n ph pw c d"
    and nn: "0 \<le> p0" "0 \<le> p1" "0 \<le> p2" "0 \<le> p3"
    and ph: "ph = h + nat p0 + nat p1" and pw: "pw = w + nat p2 + nat p3"
  shows "has_shape4 n h w c
           (map (\<lambda>img. map (py_slice p2 (int pw - p3)) (py_slice p0 (int ph - p1) img)) d)"
    and "\<And>b y x. b < n \<Longrightarrow> y < h \<Longrightarrow> x < w \<Longrightarrow>
           map (\<lambda>img. map (py_slice p2 (int pw - p3)) (py_slice p0 (int ph - p1) img)) d ! b ! y ! x =
           d ! b ! (y + nat p0) ! (x + nat p2)"
proof -
  let ?crop = "map (\<lambda>img. map (py_slice p2 (int pw - p3)) (py_slice p0 (int ph - p1) img)) d"
  have ld: "length d = n" using d by (simp add: has_shape4_def)
  have li: "length (d ! b) = ph" if "b < n" for b using d that by (simp add: has_shape4_iff)
  have lr: "length (d ! b ! y) = pw" if "b < n" "y < ph" for b y
    using d that by (simp add: has_shape4_iff)
  have lp: "length (d ! b ! y ! x) = c" if "b < n" "y < ph" "x < pw" for b y x
    using d that by (simp add: has_shape4_iff)
  have rows: "length (py_slice p0 (int ph - p1) (d ! b)) = h \<and>
              (\<forall>y<h. py_slice p0 (int ph - p1) (d ! b) ! y = d ! b ! (y + nat p0))"
    if "b < n" for b
  proof -
    have l: "length (d ! b) = h + nat p0 + nat p1" using li [OF that] ph by simp
    show ?thesis
      using py_slice_crop [OF nn(1,2) l] unfolding li [OF that] by blast
  qed
  have cols: "length (py_slice p2 (int pw - p3) (d ! b ! y)) = w \<and>
              (\<forall>x<w. py_slice p2 (int pw - p3) (d ! b ! y) ! x = d ! b ! y ! (x + nat p2))"
    if "b < n" "y < ph" for b y
  proof -
    have l: "length (d ! b ! y) = w + nat p2 + nat p3" using lr [OF that] pw by simp
    show ?thesis
      using py_slice_crop [OF nn(3,4) l] unfolding lr [OF that] by blast
  qed
  have val: "?crop ! b ! y ! x = d ! b ! (y + nat p0) ! (x + nat p2)"
    if "b < n" "y < h" "x < w" for b y x
  proof -
    have y': "y + nat p0 < ph" using that(2) ph by simp
    have "?crop ! b ! y = py_slice p2 (int pw - p3) (d ! b ! (y + nat p0))"
      using that(1,2) ld rows [OF that(1)] by simp
    then show ?thesis using cols [OF that(1) y'] that(3) by simp
  qed
  show "\<And>b y x. b < n \<Longrightarrow> y < h \<Longrightarrow> x < w \<Longrightarrow> ?crop ! b ! y ! x = d ! b ! (y + nat p0) ! (x + nat p2)"
    by (rule val)
  show "has_shape4 n h w c ?crop"
    unfolding has_shape4_iff
  proof (intro conjI allI impI)
    show "length ?crop = n" using ld by simp
  next
    fix b assume b: "b < n"
    then show "length (?crop ! b) = h" using ld rows [OF b] by simp
  next
    fix b y assume b: "b < n" and y: "y < h"
    have y': "y + nat p0 < ph" using y ph by simp
    have "?crop ! b ! y = py_slice p2 (int pw - p3) (d ! b ! (y + nat p0))"
      using b y ld rows [OF b] by simp
    then show "length (?crop ! b ! y) = w" using cols [OF b y'] by simp
  next
    fix b y x assume b: "b < n" and y: "y < h" and x: "x < w"
    have "y + nat p0 < ph" "x + nat p2 < pw" using y x ph pw by simp_all
    then show "length (?crop ! b ! y ! x) = c"
      unfolding val [OF b y x] using lp b by simp
  qed
qed

lemma Conv2D_backward_ok:
  assumes cc: "cache layer' =
             Some \<lparr>cc_in_n = n, cc_in_img_size = (h, w, c), cc_kernel_size = (kh, kw, c),
                   cc_stride = (sh, sw), cc_pad = [p0, p1, p2, p3],
                   cc_pad_img_size = (ph, pw, c),
                   cc_out_img_size = (int oh, int ow, oc),
                   cc_X_matrix = X, cc_W_matrix = W\<rparr>"
    and ph: "ph = h + nat p0 + nat p1" and pw: "pw = w + nat p2 + nat p3"
    and oh: "oh = (ph - kh) div sh + 1"
    and ow: "ow = (pw - kw) div sw + 1"
    and par: "params_w layer' = Some kernel_w"
    and kw: "has_shape4 kh kw c oc kernel_w"
    and X: "has_shape2 (n * oh * ow) (kh * kw * c) X"
    and W: "has_shape2 (kh * kw * c) oc W"
    and g: "has_shape4 n oh ow oc grad"
    and pos: "0 < n" "0 < c" "0 < kh" "0 < kw" "0 < oc" "0 < sh" "0 < sw"
    and nn: "0 \<le> p0" "0 \<le> p1" "0 \<le> p2" "0 \<le> p3"
    and fit: "kh \<le> ph" "kw \<le> pw"
  shows "\<exists>layer'' d_X d_in.
           matmul4 grad (transpose_m W) = Inr d_X \<and>
           Conv2D_backward layer' grad = (layer'', Inr d_in) \<and>
           has_shape4 n h w c d_in \<and>
           (\<forall>b<n. \<forall>y<h. \<forall>x<w. \<forall>ch<c.
              d_in ! b ! y ! x ! ch =
                scatter_add_value kh kw sh sw c oh ow d_X b (y + nat p0) (x + nat p2) ch)"
proof -
  let ?K = "kh * kw * c"
  have opos: "0 < oh" "0 < ow" using oh ow by simp_all
  have M: "0 < n * oh * ow" using pos opos by simp
  have K: "0 < ?K" using pos by simp
  \<comment> \<open>gradient of the parameters\<close>
  have lg: "length (flatten4 grad) = (n * oh * ow) * oc"
    using length_flatten4 [OF g] by simp
  let ?g2 = "rows_of (n * oh * ow) oc (flatten4 grad)"
  have f1: "reshape_cols oc (flatten4 grad) = Inr ?g2"
    using lg pos by (simp add: reshape_cols_def)
  have g2: "has_shape2 (n * oh * ow) oc ?g2" using lg by (intro has_shape2_rows_of) simp
  note XT = transpose_m_shape [OF X M]
  note f2 = matmul_Inr [OF XT g2 M]
  let ?dw = "map (\<lambda>r. vecmat r ?g2) (transpose_m X)"
  have ldw: "length (concat ?dw) = kh * kw * c * oc"
    using length_concat_shape2 [OF f2(2)] by simp
  have f3: "shape4 kernel_w = (kh, kw, c, oc)" using kw pos by (intro shape4_has_shape4)
  have f4: "reshape4 (int kh) (int kw) (int c) (int oc) (concat ?dw) =
      Inr (rows_of kh kw (rows_of (kh * kw) c (rows_of (kh * kw * c) oc (concat ?dw))))"
    using ldw by (rule reshape4_Inr)
  \<comment> \<open>gradient of the inputs\<close>
  note WT = transpose_m_shape [OF W K]
  note f5 = matmul4_Inr [OF g WT pos(5)]
  let ?dX = "map (map (map (\<lambda>v. vecmat v (transpose_m W)))) grad"
  have lr: "length (py_range (int ph - int kh + 1) sh) = oh"
    unfolding oh using fit(1) pos(6) by (rule length_py_range_conv)
  have lc: "length (py_range (int pw - int kw + 1) sw) = ow"
    unfolding ow using fit(2) pos(7) by (rule length_py_range_conv)
  obtain d where d: "Conv2D_scatter n kh kw c ?dX (py_range (int ph - int kh + 1) sh)
        (py_range (int pw - int kw + 1) sw) (np_zeros4 n ph pw c) = Inr d"
      "has_shape4 n ph pw c d"
      "\<forall>b<n. \<forall>y<ph. \<forall>x<pw. \<forall>ch<c.
          d ! b ! y ! x ! ch = scatter_add_value kh kw sh sw c oh ow ?dX b y x ch"
    using Conv2D_scatter_eq [OF f5(2) pos(1) opos lr lc, of ph pw] by blast
  let ?crop = "map (\<lambda>img. map (py_slice p2 (int pw - p3)) (py_slice p0 (int ph - p1) img)) d"
  note C = crop_eq [OF d(2) nn ph pw]
  have "Conv2D_backward layer' grad =
      (layer'\<lparr>grads_w := Some (rows_of kh kw (rows_of (kh * kw) c (rows_of (kh * kw * c) oc (concat ?dw)))),
              grads_b := Some (sum_axes012 grad)\<rparr>, Inr ?crop)"
    using pos(6,7)
    by (simp add: Conv2D_backward_def cc par f1 f2(1) f3 f4 f5(1) d(1) Let_def)
  moreover have "\<forall>b<n. \<forall>y<h. \<forall>x<w. \<forall>ch<c.
      ?crop ! b ! y ! x ! ch = scatter_add_value kh kw sh sw c oh ow ?dX b (y + nat p0) (x + nat p2) ch"
  proof (intro allI impI)
    fix b y x ch assume r: "b < n" "y < h" "x < w" "ch < c"
    have "y + nat p0 < ph" "x + nat p2 < pw" using r ph pw by simp_all
    then show "?crop ! b ! y ! x ! ch =
        scatter_add_value kh kw sh sw c oh ow ?dX b (y + nat p0) (x + nat p2) ch"
      unfolding C(2) [OF r(1-3)] using d(3) r(1,4) by blast
  qed
  ultimately show ?thesis using f5(1) C(1) by blast
qed

lemma conv_padding_props:
  assumes "0 < kh" "0 < kw"
    and "Conv2D_get_padding [int kh, int kw] mode = Inr (printed, Some [p0, p1, p2, p3])"
  shows "0 \<le> p0" "0 \<le> p1" "0 \<le> p2" "0 \<le> p3"
    and "mode \<noteq> ''VALID'' \<Longrightarrow> 0 < h \<Longrightarrow> kh \<le> h + nat p0 + nat p1"
    and "mode \<noteq> ''VALID'' \<Longrightarrow> 0 < w \<Longrightarrow> kw \<le> w + nat p2 + nat p3"
proof -
  consider "mode = ''FULL''" | "mode = ''VALID''" | "mode = ''SAME''"
    using assms(3) by (auto simp: Conv2D_get_padding_def split: if_splits)
  then have "0 \<le> p0 \<and> 0 \<le> p1 \<and> 0 \<le> p2 \<and> 0 \<le> p3 \<and>
      (mode \<noteq> ''VALID'' \<longrightarrow> int kh - 1 \<le> p0 + p1 \<and> int kw - 1 \<le> p2 + p3)"
  proof cases
    case 1
    then have "p0 = int kh - 1" "p1 = int kw - 1" "p2 = int kh - 1" "p3 = int kw - 1"
      using assms(3) by (simp_all add: Conv2D_get_padding_FULL)
    then show ?thesis using assms(1,2) by simp
  next
    case 2
    then show ?thesis using assms(3) by (simp add: Conv2D_get_padding_VALID)
  next
    case 3
    then have e: "p0 = (int kh - 1) div 2" "p1 = (int kh - 1) div 2 + (if even (int kh) then 1 else 0)"
      "p2 = (int kw - 1) div 2" "p3 = (int kw - 1) div 2 + (if even (int kw) then 1 else 0)"
      using assms(3) by (simp_all add: Conv2D_get_padding_SAME)
    have "p0 + p1 = int kh - 1" "p2 + p3 = int kw - 1" unfolding e by presburger+
    moreover have "0 \<le> p0" "0 \<le> p1" "0 \<le> p2" "0 \<le> p3"
      using assms(1,2) unfolding e by simp_all
    ultimately show ?thesis by simp
  qed
  then show "0 \<le> p0" "0 \<le> p1" "0 \<le> p2" "0 \<le> p3"
    and "mode \<noteq> ''VALID'' \<Longrightarrow> 0 < h \<Longrightarrow> kh \<le> h + nat p0 + nat p1"
    and "mode \<noteq> ''VALID'' \<Longrightarrow> 0 < w \<Longrightarrow> kw \<le> w + nat p2 + nat p3"
    by linarith+
qed

subsection \<open>The first maximum\<close>

lemma is_first_max_iff:
  "is_first_max vs k \<longleftrightarrow>
     k < length vs \<and> (\<forall>q<length vs. vs ! q \<le> vs ! k) \<and> (\<forall>q<k. vs ! q < vs ! k)"
  by (auto simp: is_first_max_def list_all_iff)

lemma is_first_max_unique:
  assumes "is_first_max vs k" "is_first_max vs k'"
  shows "k = k'"
proof (rule ccontr)
  assume "k \<noteq> k'"
  then consider "k < k'" | "k' < k" by linarith
  then show False
  proof cases
    case 1
    then have "vs ! k < vs ! k'" "vs ! k' \<le> vs ! k"
      using assms by (auto simp: is_first_max_iff)
    then show False by simp
  next
    case 2
    then have "vs ! k' < vs ! k" "vs ! k \<le> vs ! k'"
      using assms by (auto simp: is_first_max_iff)
    then show False by simp
  qed
qed

lemma argmax_from_first_max:
  assumes "best < length pre" "pre ! best = v"
    and "\<forall>q<length pre. pre ! q \<le> v" and "\<forall>q<best. pre ! q < v"
  shows "is_first_max (pre @ xs) (argmax_from best v (length pre) xs)"
  using assms
proof (induction xs arbitrary: pre best v)
  case Nil
  then show ?case by (simp add: is_first_max_iff)
next
  case (Cons x xs)
  show ?case
  proof (cases "v < x")
    case True
    have "is_first_max ((pre @ [x]) @ xs) (argmax_from (length pre) x (length (pre @ [x])) xs)"
    proof (rule Cons.IH)
      show "length pre < length (pre @ [x])" by simp
      show "(pre @ [x]) ! length pre = x" by simp
      show "\<forall>q<length (pre @ [x]). (pre @ [x]) ! q \<le> x"
        using Cons.prems(3) True by (auto simp: nth_append less_Suc_eq)
      show "\<forall>q<length pre. (pre @ [x]) ! q < x"
        using Cons.prems(3) True by (auto simp: nth_append)
    qed
    then show ?thesis using True by simp
  next
    case False
    have "is_first_max ((pre @ [x]) @ xs) (argmax_from best v (length (pre @ [x])) xs)"
    proof (rule Cons.IH)
      show "best < length (pre @ [x])" using Cons.prems(1) by simp
      show "(pre @ [x]) ! best = v" using Cons.prems(1,2) by (simp add: nth_append)
      show "\<forall>q<length (pre @ [x]). (pre @ [x]) ! q \<le> v"
        using Cons.prems(3) False by (auto simp: nth_append less_Suc_eq)
      show "\<forall>q<best. (pre @ [x]) ! q < v"
        using Cons.prems(1,4) by (auto simp: nth_append)
    qed
    then show ?thesis using False by simp
  qed
qed

lemma np_argmax_first_max:
  assumes "vs \<noteq> []"
  shows "is_first_max vs (np_argmax vs)"
proof -
  obtain x xs where vs: "vs = x # xs" using assms by (cases vs) auto
  have "is_first_max ([x] @ xs) (argmax_from 0 x (length [x]) xs)"
    by (rule argmax_from_first_max) simp_all
  then show ?thesis by (simp add: vs np_argmax_def)
qed

lemma np_argmax_eq_iff:
  assumes "vs \<noteq> []"
  shows "np_argmax vs = k \<longleftrightarrow> is_first_max vs k"
  using np_argmax_first_max [OF assms] is_first_max_unique by blast

lemma np_argmax_less: "vs \<noteq> [] \<Longrightarrow> np_argmax vs < length vs"
  using np_argmax_first_max [of vs] by (simp add: is_first_max_iff)

lemma bc_get_nth: "i < length xs \<Longrightarrow> bc_get xs i = xs ! i"
  by (auto simp: bc_get_def)

lemma bc_dim_same [simp]: "bc_dim a a = Some a"
  by (simp add: bc_dim_def)

lemma div_mod_window:
  assumes "i * s \<le> (y::nat)" "y < i * s + k" "k \<le> s"
  shows "y div s = i" and "y mod s = y - i * s"
proof -
  have "y < i * s + s" using assms by linarith
  then have lt: "y - i * s < s" using assms(1) by linarith
  have y: "y = (y - i * s) + i * s" using assms(1) by simp
  have "y div s = ((y - i * s) + i * s) div s" using y by simp
  also have "\<dots> = i" using lt by simp
  finally show "y div s = i" .
  have "y mod s = ((y - i * s) + i * s) mod s" using y by simp
  also have "\<dots> = y - i * s" using lt by simp
  finally show "y mod s = y - i * s" .
qed

subsection \<open>MaxPool2D.forward: the cached argmax\<close>

lemma map_nth_eq: "map f xs = map (\<lambda>i. f (xs ! i)) [0..<length xs]"
  by (rule nth_equalityI) simp_all

lemma MaxPool2D_window_full:
  assumes p: "has_shape4 n h w c padded" and pos: "0 < n" "0 < c" "0 < kh" "0 < kw"
    and fit: "col + kh \<le> h" "row + kw \<le> w"
  shows "\<exists>mp mx. MaxPool2D_window padded n c kh kw (col, row) = Inr (mp, mx) \<and>
           has_shape2 n c mp \<and> has_shape2 n c mx \<and>
           (\<forall>b<n. \<forall>ch<c. mp ! b ! ch = np_argmax (window_values padded b col row kh kw ch))"
proof -
  let ?sl = "map (\<lambda>img. map (py_slice (int row) (int row + int kw))
                          (py_slice (int col) (int col + int kh) img)) padded"
  let ?k = "kh * kw"
  let ?flat = "flatten4 ?sl"
  let ?R = "rows_of (n * ?k) c ?flat"
  let ?pool = "rows_of n ?k ?R"
  have cr: "col < h" "row < w" using fit pos by linarith+
  have "has_shape4 n (min kh (h - col)) (min kw (w - row)) c ?sl"
    using p cr by (rule window_shape)
  moreover have "min kh (h - col) = kh" "min kw (w - row) = kw" using fit by simp_all
  ultimately have sh: "has_shape4 n kh kw c ?sl" by simp
  have len: "length ?flat = (n * ?k) * c"
    unfolding length_flatten4 [OF sh] by (simp add: mult.assoc)
  have len': "length ?flat = ?k * (n * c)" using len by (simp add: ac_simps)
  have nc: "0 < n * c" and k: "0 < ?k" using pos by simp_all
  have m: "length ?flat mod (n * c) = 0" using len' by simp
  have d: "length ?flat div (n * c) = ?k" using len' nc by simp
  let ?mp = "map (\<lambda>p. map (\<lambda>ch. np_argmax (map (\<lambda>px. px ! ch) p)) [0..<c]) ?pool"
  let ?mx = "map (\<lambda>p. map (\<lambda>ch. np_max (map (\<lambda>px. px ! ch) p)) [0..<c]) ?pool"
  have eq: "MaxPool2D_window padded n c kh kw (col, row) = Inr (?mp, ?mx)"
    using nc k m d by (simp add: MaxPool2D_window_def Let_def)
  have shp: "has_shape2 n c ?mp" "has_shape2 n c ?mx" by (simp_all add: has_shape2_iff)
  have val: "map (\<lambda>px. px ! ch) (?pool ! b) = window_values padded b col row kh kw ch"
    if b: "b < n" and ch: "ch < c" for b ch
  proof -
    have lR: "length ?R = n * ?k" by simp
    have lpb: "length (?pool ! b) = ?k" using b lR by (simp add: length_rows_of_nth)
    have cell: "?pool ! b ! q ! ch = padded ! b ! (col + q div kw) ! (row + q mod kw) ! ch"
      if q: "q < ?k" for q
    proof -
      let ?a = "q div kw" and ?bb = "q mod kw"
      have a: "?a < kh" using q pos(4) by (simp add: less_mult_imp_div_less mult.commute)
      have bb: "?bb < kw" using pos(4) by simp
      have qe: "q = ?a * kw + ?bb" by simp
      have bq: "b * ?k + q < n * ?k" using b q by (rule index_bound)
      have "?pool ! b ! q = ?R ! (b * ?k + q)"
        using b q lR by (simp add: rows_of_nth_nth)
      moreover have "?R ! (b * ?k + q) ! ch = ?flat ! ((b * ?k + q) * c + ch)"
        using bq ch len by (simp add: rows_of_nth_nth)
      moreover have "(b * ?k + q) * c + ch = ((b * kh + ?a) * kw + ?bb) * c + ch"
      proof -
        have "b * ?k + q = b * kh * kw + (?a * kw + ?bb)" using qe by (simp add: mult.assoc)
        also have "\<dots> = (b * kh + ?a) * kw + ?bb" by (simp add: algebra_simps)
        finally show ?thesis by simp
      qed
      moreover have "?flat ! (((b * kh + ?a) * kw + ?bb) * c + ch) = ?sl ! b ! ?a ! ?bb ! ch"
        using sh b a bb ch by (rule flatten4_nth)
      moreover have "?sl ! b ! ?a ! ?bb = padded ! b ! (col + ?a) ! (row + ?bb)"
      proof -
        have lp: "length padded = n" "length (padded ! b) = h"
          using p b by (simp_all add: has_shape4_iff)
        have ca: "col + ?a < h" using a fit by linarith
        have lrow: "length (padded ! b ! (col + ?a)) = w"
          using p b ca by (simp add: has_shape4_iff)
        have "?sl ! b ! ?a = py_slice (int row) (int row + int kw)
                                (py_slice (int col) (int col + int kh) (padded ! b) ! ?a)"
          using b lp a fit by (simp add: length_py_slice)
        also have "py_slice (int col) (int col + int kh) (padded ! b) ! ?a = padded ! b ! (col + ?a)"
          using a ca lp by (intro py_slice_nth) simp_all
        finally have "?sl ! b ! ?a = py_slice (int row) (int row + int kw) (padded ! b ! (col + ?a))" .
        moreover have "py_slice (int row) (int row + int kw) (padded ! b ! (col + ?a)) ! ?bb =
            padded ! b ! (col + ?a) ! (row + ?bb)"
          using bb fit lrow by (intro py_slice_nth) simp_all
        ultimately show ?thesis by simp
      qed
      ultimately show ?thesis by simp
    qed
    have "map (\<lambda>px. px ! ch) (?pool ! b) = map (\<lambda>q. ?pool ! b ! q ! ch) [0..<?k]"
      using map_nth_eq [of "\<lambda>px. px ! ch" "?pool ! b"] lpb by simp
    also have "\<dots> = window_values padded b col row kh kw ch"
      unfolding window_values_def using cell by (intro map_cong) simp_all
    finally show ?thesis .
  qed
  have "\<forall>b<n. \<forall>ch<c. ?mp ! b ! ch = np_argmax (window_values padded b col row kh kw ch)"
    using val by simp
  then show ?thesis using eq shp by blast
qed

lemma stack_windows_nth:
  assumes "xs \<noteq> []" "\<And>x. x \<in> set xs \<Longrightarrow> has_shape2 n c x" "0 < n" "0 < c"
    and "length xs = oh * ow"
  shows "\<exists>t. stack_windows n oh ow c xs = Inr t \<and> has_shape4 n oh ow c t \<and>
           (\<forall>b<n. \<forall>i<oh. \<forall>j<ow. \<forall>ch<c. t ! b ! i ! j ! ch = xs ! (i * ow + j) ! b ! ch)"
proof -
  let ?flat = "concat (map (\<lambda>i. concat (map (\<lambda>x. x ! i) xs)) [0..<length (first xs)])"
  let ?t = "rows_of n oh (rows_of (n * oh) ow (rows_of (n * oh * ow) c ?flat))"
  have fx: "first xs \<in> set xs" using assms(1) by (cases xs) simp_all
  then have lf: "length (first xs) = n" using assms(2) by (simp add: has_shape2_iff)
  have un: "length y = c" if "y \<in> set (map (\<lambda>x. x ! b) xs)" "b < n" for y b
    using that assms(2) by (auto simp: has_shape2_iff)
  have inner: "length (concat (map (\<lambda>x. x ! b) xs)) = oh * ow * c" if "b < n" for b
    using concat_uniform_length [of "map (\<lambda>x. x ! b) xs" c] un [OF _ that] assms(5) by simp
  have un2: "length y = oh * ow * c" if "y \<in> set (map (\<lambda>i. concat (map (\<lambda>x. x ! i) xs)) [0..<n])" for y
    using that inner by auto
  have len: "length ?flat = n * oh * ow * c"
    unfolding lf using concat_uniform_length [of "map (\<lambda>i. concat (map (\<lambda>x. x ! i) xs)) [0..<n]" "oh * ow * c"] un2
    by (simp add: mult.assoc)
  have r: "reshape4 (int n) (int oh) (int ow) (int c) ?flat = Inr ?t"
    using len by (rule reshape4_Inr)
  have st: "stack_windows n oh ow c xs = Inr ?t"
    using assms(1) r by (simp add: stack_windows_def)
  have shp: "has_shape4 n oh ow c ?t" using len by (rule rows4_shape)
  have val: "?t ! b ! i ! j ! ch = xs ! (i * ow + j) ! b ! ch"
    if r: "b < n" "i < oh" "j < ow" "ch < c" for b i j ch
  proof -
    have ij: "i * ow + j < oh * ow" using r(2,3) by (rule index_bound)
    have ijc: "(i * ow + j) * c + ch < oh * ow * c" using ij r(4) by (rule index_bound)
    have idx: "((b * oh + i) * ow + j) * c + ch = b * (oh * ow * c) + ((i * ow + j) * c + ch)"
      by (simp add: algebra_simps)
    have "?t ! b ! i ! j ! ch = ?flat ! (((b * oh + i) * ow + j) * c + ch)"
      using len r by (rule rows4_nth)
    also have "\<dots> = ?flat ! (b * (oh * ow * c) + ((i * ow + j) * c + ch))" by (simp only: idx)
    also have "\<dots> = map (\<lambda>i. concat (map (\<lambda>x. x ! i) xs)) [0..<n] ! b ! ((i * ow + j) * c + ch)"
      unfolding lf using un2 r(1) ijc by (intro concat_uniform_nth) simp_all
    also have "\<dots> = concat (map (\<lambda>x. x ! b) xs) ! ((i * ow + j) * c + ch)"
      using r(1) by simp
    also have "\<dots> = map (\<lambda>x. x ! b) xs ! (i * ow + j) ! ch"
      using un [OF _ r(1)] ij r(4) assms(5) by (intro concat_uniform_nth) simp_all
    also have "\<dots> = xs ! (i * ow + j) ! b ! ch" using ij assms(5) by simp
    finally show ?thesis .
  qed
  show ?thesis using st shp val by blast
qed

lemma MaxPool2D_forward_sized_unfold:
  assumes "shape4 x = (n, h, w, c)" "shape4 padded = (n, ph, pw, c)" "0 < sh" "0 < sw"
  shows "MaxPool2D_forward_sized x padded sh sw kh kw =
      bindE (mapE (MaxPool2D_window padded n c kh kw)
               (List.product (py_range (int ph) sh) (py_range (int pw) sw)))
        (\<lambda>windows.
           bindE (stack_windows n (ph div sh) (pw div sw) c (map snd windows)) (\<lambda>outputs.
           bindE (stack_windows n (ph div sh) (pw div sw) c (map fst windows)) (\<lambda>max_pos.
             Inr (\<lparr>pc_in_n = n, pc_in_img_size = (h, w, c),
                   pc_stride = (sh, sw), pc_pad = (ph, pw),
                   pc_pool = (kh, kw), pc_max_pos = max_pos,
                   pc_out_img_size = (ph div sh, pw div sw, c)\<rparr>,
                  outputs))))"
  using assms(3,4) by (simp add: MaxPool2D_forward_sized_def assms(1,2) Let_def)

lemma dvd_range_bound:
  assumes "(s::nat) dvd p" "0 < s" "i < p div s" "k \<le> s"
  shows "i * s + k \<le> p"
proof -
  have "Suc i \<le> p div s" using assms(3) by simp
  then have "Suc i * s \<le> (p div s) * s" by (rule mult_le_mono1)
  also have "\<dots> = p" using assms(1) by simp
  finally show ?thesis using assms(4) by simp
qed

lemma MaxPool2D_forward_sized_cache:
  assumes x: "has_shape4 n h w c x" and p: "has_shape4 n ph pw c padded"
    and pos: "0 < n" "0 < h" "0 < w" "0 < c" "0 < ph" "0 < pw"
      "0 < sh" "0 < sw" "0 < kh" "0 < kw"
    and dv: "sh dvd ph" "sw dvd pw" and le: "kh \<le> sh" "kw \<le> sw"
  shows "\<exists>mp out.
           MaxPool2D_forward_sized x padded sh sw kh kw =
             Inr (\<lparr>pc_in_n = n, pc_in_img_size = (h, w, c),
                   pc_stride = (sh, sw), pc_pad = (ph, pw),
                   pc_pool = (kh, kw), pc_max_pos = mp,
                   pc_out_img_size = (ph div sh, pw div sw, c)\<rparr>, out) \<and>
           has_shape4 n (ph div sh) (pw div sw) c mp \<and>
           (\<forall>b<n. \<forall>i<ph div sh. \<forall>j<pw div sw. \<forall>ch<c.
              mp ! b ! i ! j ! ch = np_argmax (window_values padded b (i * sh) (j * sw) kh kw ch))"
proof -
  let ?rows = "py_range (int ph) sh" and ?cols = "py_range (int pw) sw"
  let ?pos = "List.product ?rows ?cols"
  let ?oh = "ph div sh" and ?ow = "pw div sw"
  have sx: "shape4 x = (n, h, w, c)" using x pos by (intro shape4_has_shape4)
  have sp: "shape4 padded = (n, ph, pw, c)" using p pos by (intro shape4_has_shape4)
  have lr: "length ?rows = ?oh"
    using length_py_range_nat [OF pos(7), of ph] ceil_div_nat [OF pos(7), of ph] dv(1) by simp
  have lc: "length ?cols = ?ow"
    using length_py_range_nat [OF pos(8), of pw] ceil_div_nat [OF pos(8), of pw] dv(2) by simp
  have opos: "0 < ?oh" "0 < ?ow" using dv pos by (auto elim!: dvdE)
  have nth_pos: "?pos ! (i * ?ow + j) = (i * sh, j * sw)" if "i < ?oh" "j < ?ow" for i j
  proof -
    have "i * ?ow + j < ?oh * ?ow" using that by (rule index_bound)
    then have "?pos ! (i * ?ow + j) =
        (?rows ! ((i * ?ow + j) div length ?cols), ?cols ! ((i * ?ow + j) mod length ?cols))"
      using lr lc by (intro product_nth) simp
    moreover have "(i * ?ow + j) div ?ow = i" "(i * ?ow + j) mod ?ow = j" using that(2) by simp_all
    ultimately show ?thesis using that lr lc by (simp add: py_range_nth)
  qed
  have full: "\<exists>mp mx. MaxPool2D_window padded n c kh kw q = Inr (mp, mx) \<and>
           has_shape2 n c mp \<and> has_shape2 n c mx \<and>
           (\<forall>b<n. \<forall>ch<c. mp ! b ! ch = np_argmax (window_values padded b (fst q) (snd q) kh kw ch))"
    if "q \<in> set ?pos" for q
  proof -
    have "q \<in> set ?rows \<times> set ?cols" using that by simp
    then have "fst q \<in> set ?rows" "snd q \<in> set ?cols" by (simp_all add: mem_Times_iff)
    then obtain i j where ij: "i < length ?rows" "?rows ! i = fst q" "j < length ?cols" "?cols ! j = snd q"
      unfolding in_set_conv_nth by blast
    have f: "fst q = i * sh" "snd q = j * sw"
      using ij py_range_nth [of i "int ph" sh] py_range_nth [of j "int pw" sw] by simp_all
    have "i * sh + kh \<le> ph" "j * sw + kw \<le> pw"
      using dvd_range_bound [OF dv(1) pos(7) _ le(1), of i] dvd_range_bound [OF dv(2) pos(8) _ le(2), of j]
        ij lr lc by simp_all
    moreover have "q = (fst q, snd q)" by simp
    ultimately show ?thesis
      using MaxPool2D_window_full [OF p pos(1,4,9,10), of "fst q" "snd q"] f by metis
  qed
  define g where "g = (\<lambda>q. projr (MaxPool2D_window padded n c kh kw q))"
  have g: "MaxPool2D_window padded n c kh kw q = Inr (g q) \<and>
           has_shape2 n c (fst (g q)) \<and> has_shape2 n c (snd (g q)) \<and>
           (\<forall>b<n. \<forall>ch<c. fst (g q) ! b ! ch =
               np_argmax (window_values padded b (fst q) (snd q) kh kw ch))"
    if "q \<in> set ?pos" for q
  proof -
    from full [OF that] obtain mp mx where r: "MaxPool2D_window padded n c kh kw q = Inr (mp, mx)"
      "has_shape2 n c mp" "has_shape2 n c mx"
      "\<forall>b<n. \<forall>ch<c. mp ! b ! ch = np_argmax (window_values padded b (fst q) (snd q) kh kw ch)"
      by blast
    then have "g q = (mp, mx)" by (simp add: g_def)
    with r show ?thesis by simp
  qed
  have wins: "mapE (MaxPool2D_window padded n c kh kw) ?pos = Inr (map g ?pos)"
  proof (rule mapE_Inr)
    fix q assume "q \<in> set ?pos"
    then show "MaxPool2D_window padded n c kh kw q = Inr (g q)" using g by blast
  qed
  have lpos: "length ?pos = ?oh * ?ow" using lr lc by simp
  have ne: "?pos \<noteq> []" using lpos opos by (metis length_0_conv mult_is_0 less_numeral_extra(3))
  have s1: "map snd (map g ?pos) \<noteq> []" and s2: "map fst (map g ?pos) \<noteq> []" using ne by simp_all
  have h1: "\<And>y. y \<in> set (map snd (map g ?pos)) \<Longrightarrow> has_shape2 n c y" using g by auto
  have h2: "\<And>y. y \<in> set (map fst (map g ?pos)) \<Longrightarrow> has_shape2 n c y" using g by auto
  have l1: "length (map snd (map g ?pos)) = ?oh * ?ow" using lpos by simp
  have l2: "length (map fst (map g ?pos)) = ?oh * ?ow" using lpos by simp
  obtain out where out: "stack_windows n ?oh ?ow c (map snd (map g ?pos)) = Inr out"
    using stack_windows_nth [OF s1 h1 pos(1,4) l1] by blast
  obtain mp where mp: "stack_windows n ?oh ?ow c (map fst (map g ?pos)) = Inr mp"
    "has_shape4 n ?oh ?ow c mp"
    "\<forall>b<n. \<forall>i<?oh. \<forall>j<?ow. \<forall>ch<c. mp ! b ! i ! j ! ch = map fst (map g ?pos) ! (i * ?ow + j) ! b ! ch"
    using stack_windows_nth [OF s2 h2 pos(1,4) l2] by blast
  have val: "mp ! b ! i ! j ! ch = np_argmax (window_values padded b (i * sh) (j * sw) kh kw ch)"
    if r: "b < n" "i < ?oh" "j < ?ow" "ch < c" for b i j ch
  proof -
    have ij: "i * ?ow + j < length ?pos" unfolding lpos using r(2,3) by (rule index_bound)
    then have mem: "?pos ! (i * ?ow + j) \<in> set ?pos" by (rule nth_mem)
    have "mp ! b ! i ! j ! ch = fst (g (?pos ! (i * ?ow + j))) ! b ! ch"
      using mp(3) r ij by simp
    also have "\<dots> = np_argmax (window_values padded b (fst (?pos ! (i * ?ow + j)))
                         (snd (?pos ! (i * ?ow + j))) kh kw ch)"
      using g [OF mem] r(1,4) by blast
    finally show ?thesis unfolding nth_pos [OF r(2,3)] by simp
  qed
  have "MaxPool2D_forward_sized x padded sh sw kh kw =
      Inr (\<lparr>pc_in_n = n, pc_in_img_size = (h, w, c), pc_stride = (sh, sw), pc_pad = (ph, pw),
            pc_pool = (kh, kw), pc_max_pos = mp, pc_out_img_size = (?oh, ?ow, c)\<rparr>, out)"
    unfolding MaxPool2D_forward_sized_unfold [OF sx sp pos(7,8)] wins bindE_Inr out mp(1) ..
  then show ?thesis using mp(2) val by blast
qed

subsection \<open>MaxPool2D.backward\<close>

lemma foldE_Inr_ex:
  "(\<And>s x. x \<in> set xs \<Longrightarrow> \<exists>y. f s x = Inr y) \<Longrightarrow>
   foldE f s xs = Inr (foldl (\<lambda>s x. projr (f s x)) s xs)"
proof (induction xs arbitrary: s)
  case Nil
  then show ?case by simp
next
  case (Cons x xs)
  from Cons.prems [of x s] obtain y where y: "f s x = Inr y" by auto
  have "foldE f y xs = Inr (foldl (\<lambda>s x. projr (f s x)) y xs)"
    using Cons.prems by (intro Cons.IH) simp
  then show ?case using y by simp
qed

lemma MaxPool2D_region_eq:
  assumes g: "has_shape2 n c g" and m: "has_shape2 n c mpl" and pos: "0 < n" "0 < c"
    and bound: "\<forall>b<n. \<forall>e<c. mpl ! b ! e < k"
  shows "\<exists>r. MaxPool2D_region k g mpl = Inr r \<and> length r = n \<and>
           (\<forall>b<n. length (r ! b) = k \<and>
              (\<forall>q<k. length (r ! b ! q) = c \<and>
                 (\<forall>e<c. r ! b ! q ! e = g ! b ! e * (if mpl ! b ! e = q then 1 else 0))))"
proof -
  let ?mask = "map (\<lambda>mp. map (\<lambda>q. map (\<lambda>p. if p = q then 1 else (0::real)) mp) [0..<k]) mpl"
  let ?r = "map (\<lambda>i. map (\<lambda>q. map (\<lambda>j. bc_get (bc_get g i) j * bc_get (bc_get ?mask i ! q) j)
                                            [0..<c]) [0..<k]) [0..<n]"
  have lg: "length g = n" "length mpl = n" using g m by (simp_all add: has_shape2_def)
  have lgb: "length (g ! b) = c" "length (mpl ! b) = c" if "b < n" for b
    using g m that by (simp_all add: has_shape2_iff)
  have chk: "list_all (list_all (\<lambda>p. p < k)) mpl"
    unfolding list_all_length using bound lg lgb by simp
  have f1: "length (first g) = c" "length (first mpl) = c"
    using lg lgb pos by (simp_all add: first_nth)
  have eq: "MaxPool2D_region k g mpl = Inr ?r"
    using chk f1 lg by (simp add: MaxPool2D_region_def Let_def)
  have val: "?r ! b ! q ! e = g ! b ! e * (if mpl ! b ! e = q then 1 else 0)"
    if "b < n" "q < k" "e < c" for b q e
  proof -
    have "bc_get (bc_get g b) e = g ! b ! e"
      using that lg lgb by (simp add: bc_get_nth)
    moreover have "bc_get (bc_get ?mask b ! q) e = (if mpl ! b ! e = q then 1 else 0)"
      using that lg lgb by (simp add: bc_get_nth)
    ultimately show ?thesis using that by simp
  qed
  show ?thesis using eq val by auto
qed

lemma MaxPool2D_backward_step_eq:
  assumes mp: "has_shape4 n oh ow c (pc_max_pos cc)" and g: "has_shape4 n oh ow c grad"
    and cc: "pc_in_n cc = n" "pc_in_img_size cc = (h, w, c)" "pc_pad cc = (ph, pw)"
      "pc_pool cc = (kh, kw)"
    and pos: "0 < n" "0 < c" "0 < oh" "0 < ow"
    and bound: "\<forall>b<n. \<forall>e<c. pc_max_pos cc ! b ! i ! j ! e < kh * kw"
    and ij: "i < oh" "j < ow" and fit: "col + kh \<le> ph" "row + kw \<le> pw"
  shows "\<exists>R. MaxPool2D_backward_step cc grad (i, col) d (j, row) =
               Inr (update_region (\<lambda>old new. new) col kh row kw d R) \<and>
             has_shape4 n kh kw c R \<and>
             (\<forall>b<n. \<forall>a<kh. \<forall>bb<kw. \<forall>e<c.
                R ! b ! a ! bb ! e =
                  grad ! b ! i ! j ! e * (if pc_max_pos cc ! b ! i ! j ! e = a * kw + bb then 1 else 0))"
proof -
  let ?k = "kh * kw"
  let ?g = "map (\<lambda>g. g ! i ! j) grad" and ?m = "map (\<lambda>m. m ! i ! j) (pc_max_pos cc)"
  have sm: "shape4 (pc_max_pos cc) = (n, oh, ow, c)" using mp pos by (intro shape4_has_shape4)
  have sg: "shape4 grad = (n, oh, ow, c)" using g pos by (intro shape4_has_shape4)
  have hg: "has_shape2 n c ?g" using g ij by (simp add: has_shape2_iff has_shape4_iff)
  have hm: "has_shape2 n c ?m" using mp ij by (simp add: has_shape2_iff has_shape4_iff)
  have ln: "length grad = n" "length (pc_max_pos cc) = n" using g mp by (simp_all add: has_shape4_def)
  have bd: "\<forall>b<n. \<forall>e<c. ?m ! b ! e < ?k" using bound ln by simp
  obtain r where r: "MaxPool2D_region ?k ?g ?m = Inr r" "length r = n"
    "\<forall>b<n. length (r ! b) = ?k \<and>
       (\<forall>q<?k. length (r ! b ! q) = c \<and>
          (\<forall>e<c. r ! b ! q ! e = ?g ! b ! e * (if ?m ! b ! e = q then 1 else 0)))"
    using MaxPool2D_region_eq [OF hg hm pos(1,2) bd] by blast
  let ?flat = "concat (concat r)"
  let ?R = "rows_of n kh (rows_of (n * kh) kw (rows_of (n * kh * kw) c ?flat))"
  have u1: "length y = ?k" if "y \<in> set r" for y
    using that r(2,3) by (auto simp: in_set_conv_nth)
  have l1: "length (concat r) = n * ?k" using concat_uniform_length [of r ?k] u1 r(2) by simp
  have u2: "length y = c" if "y \<in> set (concat r)" for y
  proof -
    from that obtain rb where "rb \<in> set r" "y \<in> set rb" by auto
    then obtain b q where "b < n" "rb = r ! b" "q < length rb" "y = rb ! q"
      using r(2) by (auto simp: in_set_conv_nth)
    then show ?thesis using r(3) by auto
  qed
  have len: "length ?flat = n * kh * kw * c"
    using concat_uniform_length [of "concat r" c] u2 l1 by (simp add: mult.assoc)
  have rs: "reshape4 (int n) (int kh) (int kw) (int c) ?flat = Inr ?R"
    using len by (rule reshape4_Inr)
  have shp: "has_shape4 n kh kw c ?R" using len by (rule rows4_shape)
  have step: "MaxPool2D_backward_step cc grad (i, col) d (j, row) =
               Inr (update_region (\<lambda>old new. new) col kh row kw d ?R)"
    using ij fit by (simp add: MaxPool2D_backward_step_def cc sm sg r(1) rs)
  have val: "?R ! b ! a ! bb ! e =
      grad ! b ! i ! j ! e * (if pc_max_pos cc ! b ! i ! j ! e = a * kw + bb then 1 else 0)"
    if t: "b < n" "a < kh" "bb < kw" "e < c" for b a bb e
  proof -
    have q: "a * kw + bb < ?k" using t(2,3) by (rule index_bound)
    have bq: "b * ?k + (a * kw + bb) < n * ?k" using t(1) q by (rule index_bound)
    have idx: "((b * kh + a) * kw + bb) * c + e = (b * ?k + (a * kw + bb)) * c + e"
      by (simp add: algebra_simps)
    have "?R ! b ! a ! bb ! e = ?flat ! (((b * kh + a) * kw + bb) * c + e)"
      using len t by (rule rows4_nth)
    also have "\<dots> = ?flat ! ((b * ?k + (a * kw + bb)) * c + e)" by (simp only: idx)
    also have "\<dots> = concat r ! (b * ?k + (a * kw + bb)) ! e"
      using u2 bq l1 t(4) by (intro concat_uniform_nth) simp_all
    also have "concat r ! (b * ?k + (a * kw + bb)) = r ! b ! (a * kw + bb)"
      using u1 t(1) r(2) q by (intro concat_uniform_nth) simp_all
    also have "r ! b ! (a * kw + bb) ! e =
        ?g ! b ! e * (if ?m ! b ! e = a * kw + bb then 1 else 0)"
      using r(3) t(1,4) q by blast
    finally show ?thesis using t(1) ln by simp
  qed
  show ?thesis using step shp val by blast
qed

lemma window_cover_iff:
  assumes "(s::nat) dvd p" "0 < s" "k \<le> s" "y < p"
  shows "(\<exists>i<p div s. i * s \<le> y \<and> y < i * s + k) \<longleftrightarrow> y mod s < k"
proof
  assume "\<exists>i<p div s. i * s \<le> y \<and> y < i * s + k"
  then obtain i where i: "i * s \<le> y" "y < i * s + k" by blast
  then have "y mod s = y - i * s" using assms(3) by (rule div_mod_window)
  then show "y mod s < k" using i by linarith
next
  assume a: "y mod s < k"
  have "y div s < p div s"
  proof -
    obtain q where q: "p = s * q" using assms(1) by (auto elim: dvdE)
    then have "y < q * s" using assms(4) by (simp add: mult.commute)
    then have "y div s < q" using assms(2) by (simp add: less_mult_imp_div_less)
    then show ?thesis using q assms(2) by simp
  qed
  moreover have "y div s * s \<le> y" by simp
  moreover have "y < y div s * s + k"
  proof -
    have "y = y div s * s + y mod s" by simp
    then show ?thesis using a by linarith
  qed
  ultimately show "\<exists>i<p div s. i * s \<le> y \<and> y < i * s + k" by blast
qed

lemma MaxPool2D_backward_eq:
  assumes cache: "mp_cache layer' = Some cc"
    and cc: "pc_in_n cc = n" "pc_in_img_size cc = (h, w, c)" "pc_pad cc = (ph, pw)"
      "pc_pool cc = (kh, kw)" "pc_stride cc = (sh, sw)"
    and mp: "has_shape4 n (ph div sh) (pw div sw) c (pc_max_pos cc)"
    and g: "has_shape4 n (ph div sh) (pw div sw) c grad"
    and pos: "0 < n" "0 < c" "0 < ph" "0 < pw" "0 < sh" "0 < sw" "0 < kh" "0 < kw"
    and dv: "sh dvd ph" "sw dvd pw" and le: "kh \<le> sh" "kw \<le> sw"
    and bound: "\<forall>b<n. \<forall>i<ph div sh. \<forall>j<pw div sw. \<forall>e<c. pc_max_pos cc ! b ! i ! j ! e < kh * kw"
  shows "\<exists>d. MaxPool2D_backward layer' grad = Inr d \<and> has_shape4 n ph pw c d \<and>
           (\<forall>b<n. \<forall>y<ph. \<forall>x<pw. \<forall>e<c.
              d ! b ! y ! x ! e =
                (if y mod sh < kh \<and> x mod sw < kw
                 then grad ! b ! (y div sh) ! (x div sw) ! e *
                      (if pc_max_pos cc ! b ! (y div sh) ! (x div sw) ! e = (y mod sh) * kw + x mod sw
                       then 1 else 0)
                 else 0))"
proof -
  let ?oh = "ph div sh" and ?ow = "pw div sw"
  let ?rows = "map (\<lambda>i. (i, i * sh)) [0..<?oh]"
  let ?cols = "map (\<lambda>j. (j, j * sw)) [0..<?ow]"
  let ?stp = "\<lambda>icol d jrow. projr (MaxPool2D_backward_step cc grad icol d jrow)"
  let ?cov = "\<lambda>icol jrow y x. snd icol \<le> y \<and> y < snd icol + kh \<and> snd jrow \<le> x \<and> x < snd jrow + kw"
  let ?F = "\<lambda>b y x e. grad ! b ! (y div sh) ! (x div sw) ! e *
                      (if pc_max_pos cc ! b ! (y div sh) ! (x div sw) ! e = (y mod sh) * kw + x mod sw
                       then 1 else (0::real))"
  have opos: "0 < ?oh" "0 < ?ow" using dv pos by (auto elim!: dvdE)
  have lr: "length (py_range (int ph) sh) = ?oh"
    using length_py_range_nat [OF pos(5), of ph] ceil_div_nat [OF pos(5), of ph] dv(1) by simp
  have lc: "length (py_range (int pw) sw) = ?ow"
    using length_py_range_nat [OF pos(6), of pw] ceil_div_nat [OF pos(6), of pw] dv(2) by simp
  have er: "enumerate 0 (py_range (int ph) sh) = ?rows" by (simp add: enumerate_py_range lr)
  have ec: "enumerate 0 (py_range (int pw) sw) = ?cols" by (simp add: enumerate_py_range lc)
  have step: "\<exists>R. MaxPool2D_backward_step cc grad icol d jrow =
               Inr (update_region (\<lambda>old new. new) (snd icol) kh (snd jrow) kw d R) \<and>
             has_shape4 n kh kw c R \<and>
             (\<forall>b<n. \<forall>a<kh. \<forall>bb<kw. \<forall>e<c.
                R ! b ! a ! bb ! e =
                  grad ! b ! fst icol ! fst jrow ! e *
                  (if pc_max_pos cc ! b ! fst icol ! fst jrow ! e = a * kw + bb then 1 else 0))"
    if "icol \<in> set ?rows" "jrow \<in> set ?cols" for icol jrow d
  proof -
    from that have ij: "fst icol < ?oh" "fst jrow < ?ow"
      and cr: "snd icol = fst icol * sh" "snd jrow = fst jrow * sw" by auto
    have fit: "snd icol + kh \<le> ph" "snd jrow + kw \<le> pw"
      unfolding cr using dvd_range_bound [OF dv(1) pos(5) ij(1) le(1)]
        dvd_range_bound [OF dv(2) pos(6) ij(2) le(2)] by simp_all
    have bd: "\<forall>b<n. \<forall>e<c. pc_max_pos cc ! b ! fst icol ! fst jrow ! e < kh * kw"
      using bound ij by blast
    show ?thesis
      using MaxPool2D_backward_step_eq [OF mp g cc(1-4) pos(1,2) opos bd ij fit, of d]
      by simp
  qed
  have inner: "foldE (MaxPool2D_backward_step cc grad icol) d ?cols = Inr (foldl (?stp icol) d ?cols)"
    if "icol \<in> set ?rows" for icol d
  proof (rule foldE_Inr_ex)
    fix s jrow assume "jrow \<in> set ?cols"
    then show "\<exists>y. MaxPool2D_backward_step cc grad icol s jrow = Inr y"
      using step [OF that, of jrow s] by blast
  qed
  have outer: "foldE (\<lambda>d icol. foldE (MaxPool2D_backward_step cc grad icol) d ?cols) d ?rows =
      Inr (foldl (\<lambda>d icol. foldl (?stp icol) d ?cols) d ?rows)" for d
  proof (rule foldE_Inr [where g = "\<lambda>d icol. foldl (?stp icol) d ?cols"])
    fix s icol assume "icol \<in> set ?rows"
    then show "foldE (MaxPool2D_backward_step cc grad icol) s ?cols = Inr (foldl (?stp icol) s ?cols)"
      by (rule inner)
  qed
  have one: "has_shape4 n ph pw c (?stp icol d jrow) \<and>
       (\<forall>b<n. \<forall>y<ph. \<forall>x<pw. \<forall>e<c.
          ?stp icol d jrow ! b ! y ! x ! e =
            (if ?cov icol jrow y x then ?F b y x e else d ! b ! y ! x ! e))"
    if "icol \<in> set ?rows" "jrow \<in> set ?cols" "has_shape4 n ph pw c d" for icol jrow d
  proof -
    from that have cr: "snd icol = fst icol * sh" "snd jrow = fst jrow * sw" by auto
    from step [OF that(1,2), of d] obtain R where R:
      "MaxPool2D_backward_step cc grad icol d jrow =
               Inr (update_region (\<lambda>old new. new) (snd icol) kh (snd jrow) kw d R)"
      "has_shape4 n kh kw c R"
      "\<forall>b<n. \<forall>a<kh. \<forall>bb<kw. \<forall>e<c.
                R ! b ! a ! bb ! e =
                  grad ! b ! fst icol ! fst jrow ! e *
                  (if pc_max_pos cc ! b ! fst icol ! fst jrow ! e = a * kw + bb then 1 else 0)"
      by blast
    have eq: "?stp icol d jrow = update_region (\<lambda>old new. new) (snd icol) kh (snd jrow) kw d R"
      using R(1) by simp
    have shp: "has_shape4 n ph pw c (?stp icol d jrow)"
      unfolding eq using that(3) R(2) by (intro update_region_shape) (auto simp: has_shape4_iff)
    have val: "?stp icol d jrow ! b ! y ! x ! e =
            (if ?cov icol jrow y x then ?F b y x e else d ! b ! y ! x ! e)"
      if r: "b < n" "y < ph" "x < pw" "e < c" for b y x e
    proof -
      have lp: "length (R ! b ! (y - snd icol) ! (x - snd jrow)) = c" if "?cov icol jrow y x"
      proof -
        from that have "y - snd icol < kh" "x - snd jrow < kw" by linarith+
        then show ?thesis using R(2) r(1) by (simp add: has_shape4_iff)
      qed
      have upd: "?stp icol d jrow ! b ! y ! x ! e =
          (if ?cov icol jrow y x then R ! b ! (y - snd icol) ! (x - snd jrow) ! e
           else d ! b ! y ! x ! e)"
        unfolding eq by (rule update_region_nth4 [OF \<open>has_shape4 n ph pw c d\<close> r lp])
      show ?thesis
      proof (cases "?cov icol jrow y x")
        case True
        then have ab: "y - snd icol < kh" "x - snd jrow < kw" by linarith+
        have dy: "y div sh = fst icol" "y mod sh = y - snd icol"
          using div_mod_window [of "fst icol" sh y kh] True le(1) cr by simp_all
        have dx: "x div sw = fst jrow" "x mod sw = x - snd jrow"
          using div_mod_window [of "fst jrow" sw x kw] True le(2) cr by simp_all
        have "R ! b ! (y - snd icol) ! (x - snd jrow) ! e = ?F b y x e"
          unfolding dy dx using R(3) r(1,4) ab by blast
        then show ?thesis unfolding upd by (simp only: if_P [OF True])
      next
        case False
        show ?thesis unfolding upd by (simp only: if_not_P [OF False])
      qed
    qed
    show ?thesis using shp val by blast
  qed
  have in_acc: "has_shape4 n ph pw c (foldl (?stp icol) d ?cols) \<and>
       (\<forall>b<n. \<forall>y<ph. \<forall>x<pw. \<forall>e<c.
          foldl (?stp icol) d ?cols ! b ! y ! x ! e =
            (if \<exists>jrow\<in>set ?cols. ?cov icol jrow y x then ?F b y x e else d ! b ! y ! x ! e))"
    if "icol \<in> set ?rows" "has_shape4 n ph pw c d" for icol d
    using one [OF that(1)] that(2)
    by (intro foldl_overwrite [where stp = "?stp icol" and cov = "?cov icol" and F = ?F]) blast+
  have out_acc: "has_shape4 n ph pw c (foldl (\<lambda>d icol. foldl (?stp icol) d ?cols) d ?rows) \<and>
       (\<forall>b<n. \<forall>y<ph. \<forall>x<pw. \<forall>e<c.
          foldl (\<lambda>d icol. foldl (?stp icol) d ?cols) d ?rows ! b ! y ! x ! e =
            (if \<exists>icol\<in>set ?rows. \<exists>jrow\<in>set ?cols. ?cov icol jrow y x
             then ?F b y x e else d ! b ! y ! x ! e))"
    if "has_shape4 n ph pw c d" for d
    using in_acc that
    by (intro foldl_overwrite [where stp = "\<lambda>d icol. foldl (?stp icol) d ?cols"
          and cov = "\<lambda>icol y x. \<exists>jrow\<in>set ?cols. ?cov icol jrow y x" and F = ?F]) blast+
  let ?d = "foldl (\<lambda>d icol. foldl (?stp icol) d ?cols) (np_zeros4 n ph pw c) ?rows"
  have res: "MaxPool2D_backward layer' grad = Inr ?d"
    using pos(5,6) by (simp add: MaxPool2D_backward_def cache cc er ec outer)
  note acc = out_acc [OF np_zeros4_shape]
  have cover: "(\<exists>icol\<in>set ?rows. \<exists>jrow\<in>set ?cols. ?cov icol jrow y x) \<longleftrightarrow>
      y mod sh < kh \<and> x mod sw < kw" if "y < ph" "x < pw" for y x
  proof -
    have "(\<exists>icol\<in>set ?rows. \<exists>jrow\<in>set ?cols. ?cov icol jrow y x) \<longleftrightarrow>
        (\<exists>i<?oh. i * sh \<le> y \<and> y < i * sh + kh) \<and> (\<exists>j<?ow. j * sw \<le> x \<and> x < j * sw + kw)"
      by (auto simp: Bex_def)
    then show ?thesis
      using window_cover_iff [OF dv(1) pos(5) le(1) that(1)]
        window_cover_iff [OF dv(2) pos(6) le(2) that(2)] by simp
  qed
  have "?d ! b ! y ! x ! e = (if y mod sh < kh \<and> x mod sw < kw then ?F b y x e else 0)"
    if r: "b < n" "y < ph" "x < pw" "e < c" for b y x e
  proof -
    have "?d ! b ! y ! x ! e =
        (if \<exists>icol\<in>set ?rows. \<exists>jrow\<in>set ?cols. ?cov icol jrow y x
         then ?F b y x e else np_zeros4 n ph pw c ! b ! y ! x ! e)"
      using acc r by blast
    then show ?thesis
      unfolding cover [OF r(2,3)] using r by (simp add: np_zeros4_nth)
  qed
  then show ?thesis using res acc by blast
qed

text \<open>
  Windows that do not overlap: the pool size is positive and at most the stride on each
  axis, the input has shape \<open>(n, h, w, c)\<close> with positive sizes, \<open>padded\<close> is the
  zero-padded input and \<^verbatim>\<open>forward\<close> has succeeded. Then \<^verbatim>\<open>backward\<close> on the
  all-ones gradient fills the buffer of the padded shape with 1 at the cell of each window
  whose flat index is the first occurrence of the window's maximum (for each sample and
  channel) and 0 at every other cell; in every window exactly one cell holds 1.
\<close>

lemma MaxPool2D_backward_first_max:
  assumes "has_shape4 n h w c x" and "0 < n" "0 < h" "0 < w" "0 < c"
    and "pool_size layer = [kh, kw]" and "mp_stride layer = [sh, sw]"
    and "0 < kh" "kh \<le> sh" "0 < kw" "kw \<le> sw"
    and "MaxPool2D_get_padding [int h, int w] [int kh, int kw] [int sh, int sw]
           (mp_padding_mode layer) = Inr [pt, pb, pl, pr]"
    and "np_pad_constant [pt, pb, pl, pr] x = Inr padded"
    and "MaxPool2D_forward layer x = (layer', Inr out)"
  shows "\<exists>d. MaxPool2D_backward layer'
                (replicate n (replicate ((h + nat pt + nat pb) div sh)
                   (replicate ((w + nat pl + nat pr) div sw) (replicate c 1)))) = Inr d \<and>
             has_shape4 n (h + nat pt + nat pb) (w + nat pl + nat pr) c d \<and>
             (\<forall>b<n. \<forall>y<h + nat pt + nat pb. \<forall>x<w + nat pl + nat pr. \<forall>e<c.
                d ! b ! y ! x ! e =
                  (if y mod sh < kh \<and> x mod sw < kw \<and>
                      is_first_max (window_values padded b (y div sh * sh) (x div sw * sw) kh kw e)
                        ((y mod sh) * kw + x mod sw)
                   then 1 else 0)) \<and>
             (\<forall>b<n. \<forall>i<(h + nat pt + nat pb) div sh. \<forall>j<(w + nat pl + nat pr) div sw. \<forall>e<c.
                \<exists>!q. q < kh * kw \<and> d ! b ! (i * sh + q div kw) ! (j * sw + q mod kw) ! e = 1)"
proof -
  define ph where "ph = h + nat pt + nat pb"
  define pw where "pw = w + nat pl + nat pr"
  define oh where "oh = ph div sh"
  define ow where "ow = pw div sw"
  define ones where "ones = replicate n (replicate oh (replicate ow (replicate c (1::real))))"
  have spos: "0 < sh" "0 < sw" using assms(8-11) by linarith+
  have sx: "shape4 x = (n, h, w, c)" using assms(1-4) by (rule shape4_has_shape4)
  have nonneg: "0 \<le> pt" "0 \<le> pb" "0 \<le> pl" "0 \<le> pr"
    using pool_padding_nonneg [of "int sh" "int sw" "int h" "int w" "int kh" "int kw"
        "mp_padding_mode layer"] spos assms(12) by auto
  have pd: "has_shape4 n ph pw c padded"
    using np_pad_constant_shape [OF assms(1-4) nonneg] assms(13) unfolding ph_def pw_def by auto
  have ppos: "0 < ph" "0 < pw" using assms(3,4) by (simp_all add: ph_def pw_def)
  have fw: "MaxPool2D_forward layer x =
      (case MaxPool2D_forward_sized x padded sh sw kh kw of
         Inl e \<Rightarrow> (layer, Inl e)
       | Inr (cc, outputs) \<Rightarrow> (layer\<lparr>mp_cache := Some cc\<rparr>, Inr outputs))"
    using assms(6,7,12,13) by (simp add: MaxPool2D_forward_def sx bindE_def)
  have dv: "sh dvd ph" "sw dvd pw"
  proof -
    have "sh dvd ph \<and> sw dvd pw"
    proof (rule ccontr)
      assume "\<not> (sh dvd ph \<and> sw dvd pw)"
      then have "MaxPool2D_forward_sized x padded sh sw kh kw = Inl ValueError"
        by (rule MaxPool2D_forward_sized_eq(2) [OF assms(1) pd assms(2-5) ppos spos assms(8,10)])
      then show False using fw assms(14) by simp
    qed
    then show "sh dvd ph" "sw dvd pw" by simp_all
  qed
  obtain mp out0 where cc:
    "MaxPool2D_forward_sized x padded sh sw kh kw =
       Inr (\<lparr>pc_in_n = n, pc_in_img_size = (h, w, c), pc_stride = (sh, sw), pc_pad = (ph, pw),
             pc_pool = (kh, kw), pc_max_pos = mp, pc_out_img_size = (ph div sh, pw div sw, c)\<rparr>, out0)"
    "has_shape4 n (ph div sh) (pw div sw) c mp"
    "\<forall>b<n. \<forall>i<ph div sh. \<forall>j<pw div sw. \<forall>e<c.
        mp ! b ! i ! j ! e = np_argmax (window_values padded b (i * sh) (j * sw) kh kw e)"
    using MaxPool2D_forward_sized_cache [OF assms(1) pd assms(2-5) ppos spos assms(8,10) dv assms(9,11)]
    by blast
  let ?cc = "\<lparr>pc_in_n = n, pc_in_img_size = (h, w, c), pc_stride = (sh, sw), pc_pad = (ph, pw),
             pc_pool = (kh, kw), pc_max_pos = mp, pc_out_img_size = (ph div sh, pw div sw, c)\<rparr>"
  have l': "mp_cache layer' = Some ?cc" using fw assms(14) cc(1) by auto
  have wne: "window_values padded b col row kh kw e \<noteq> []" for b col row e
    using assms(8,10) by (simp add: window_values_def)
  have wlen: "length (window_values padded b col row kh kw e) = kh * kw" for b col row e
    by (simp add: window_values_def)
  have bound: "\<forall>b<n. \<forall>i<ph div sh. \<forall>j<pw div sw. \<forall>e<c. pc_max_pos ?cc ! b ! i ! j ! e < kh * kw"
    using cc(3) np_argmax_less [OF wne] wlen by simp
  have og: "has_shape4 n (ph div sh) (pw div sw) c ones"
    by (simp add: ones_def oh_def ow_def has_shape4_def list_all_iff)
  have mp': "has_shape4 n (ph div sh) (pw div sw) c (pc_max_pos ?cc)" using cc(2) by simp
  obtain d where d: "MaxPool2D_backward layer' ones = Inr d" "has_shape4 n ph pw c d"
    "\<forall>b<n. \<forall>y<ph. \<forall>x<pw. \<forall>e<c.
        d ! b ! y ! x ! e =
          (if y mod sh < kh \<and> x mod sw < kw
           then ones ! b ! (y div sh) ! (x div sw) ! e *
                (if pc_max_pos ?cc ! b ! (y div sh) ! (x div sw) ! e = (y mod sh) * kw + x mod sw
                 then 1 else 0)
           else 0)"
    using MaxPool2D_backward_eq [OF l' _ _ _ _ _ mp' og assms(2,5) ppos spos assms(8,10) dv
        assms(9,11) bound, of h w]
    by auto
  have divlt: "y div sh < ph div sh" if "y < ph" for y
  proof -
    obtain q where q: "ph = sh * q" using dv(1) by (auto elim: dvdE)
    then have "y < q * sh" using that by (simp add: mult.commute)
    then have "y div sh < q" using spos(1) by (simp add: less_mult_imp_div_less)
    then show ?thesis using q spos(1) by simp
  qed
  have divlt': "y div sw < pw div sw" if "y < pw" for y
  proof -
    obtain q where q: "pw = sw * q" using dv(2) by (auto elim: dvdE)
    then have "y < q * sw" using that by (simp add: mult.commute)
    then have "y div sw < q" using spos(2) by (simp add: less_mult_imp_div_less)
    then show ?thesis using q spos(2) by simp
  qed
  have val: "d ! b ! y ! x ! e =
      (if y mod sh < kh \<and> x mod sw < kw \<and>
          is_first_max (window_values padded b (y div sh * sh) (x div sw * sw) kh kw e)
            ((y mod sh) * kw + x mod sw)
       then 1 else 0)"
    if r: "b < n" "y < ph" "x < pw" "e < c" for b y x e
  proof -
    have ij: "y div sh < ph div sh" "x div sw < pw div sw"
      using divlt [OF r(2)] divlt' [OF r(3)] by simp_all
    have o: "ones ! b ! (y div sh) ! (x div sw) ! e = 1"
      using r(1,4) ij by (simp add: ones_def oh_def ow_def)
    have m: "pc_max_pos ?cc ! b ! (y div sh) ! (x div sw) ! e =
        np_argmax (window_values padded b (y div sh * sh) (x div sw * sw) kh kw e)"
      using cc(3) r(1,4) ij by simp
    have e0: "d ! b ! y ! x ! e =
          (if y mod sh < kh \<and> x mod sw < kw
           then ones ! b ! (y div sh) ! (x div sw) ! e *
                (if pc_max_pos ?cc ! b ! (y div sh) ! (x div sw) ! e = (y mod sh) * kw + x mod sw
                 then 1 else 0)
           else 0)"
      using d(3) r by blast
    show ?thesis
      unfolding e0 o m np_argmax_eq_iff [OF wne] by simp
  qed
  have uniq: "\<exists>!q. q < kh * kw \<and> d ! b ! (i * sh + q div kw) ! (j * sw + q mod kw) ! e = 1"
    if r: "b < n" "i < ph div sh" "j < pw div sw" "e < c" for b i j e
  proof -
    let ?vs = "window_values padded b (i * sh) (j * sw) kh kw e"
    have cell: "d ! b ! (i * sh + q div kw) ! (j * sw + q mod kw) ! e =
        (if is_first_max ?vs q then 1 else 0)" if q: "q < kh * kw" for q
    proof -
      let ?a = "q div kw" and ?bb = "q mod kw"
      have a: "?a < kh" using q assms(10) by (simp add: less_mult_imp_div_less mult.commute)
      have bb: "?bb < kw" using assms(10) by simp
      have yb: "i * sh + ?a < ph" "j * sw + ?bb < pw"
        using dvd_range_bound [OF dv(1) spos(1) r(2) assms(9)]
          dvd_range_bound [OF dv(2) spos(2) r(3) assms(11)] a bb by linarith+
      have dy: "(i * sh + ?a) div sh = i" "(i * sh + ?a) mod sh = ?a"
        using div_mod_window [of i sh "i * sh + ?a" kh] a assms(9) by simp_all
      have dx: "(j * sw + ?bb) div sw = j" "(j * sw + ?bb) mod sw = ?bb"
        using div_mod_window [of j sw "j * sw + ?bb" kw] bb assms(11) by simp_all
      show ?thesis
        unfolding val [OF r(1) yb r(4)] dy dx using a bb by simp
    qed
    have fm: "is_first_max ?vs (np_argmax ?vs)" using wne by (rule np_argmax_first_max)
    have lt: "np_argmax ?vs < kh * kw" using np_argmax_less [OF wne, of b "i * sh" "j * sw" e] wlen by simp
    show ?thesis
    proof (rule ex1I [where a = "np_argmax ?vs"])
      show "np_argmax ?vs < kh * kw \<and>
          d ! b ! (i * sh + np_argmax ?vs div kw) ! (j * sw + np_argmax ?vs mod kw) ! e = 1"
        using lt cell [OF lt] fm by simp
    next
      fix q assume q: "q < kh * kw \<and> d ! b ! (i * sh + q div kw) ! (j * sw + q mod kw) ! e = 1"
      then have "is_first_max ?vs q" using cell [of q] by (simp split: if_splits)
      then show "q = np_argmax ?vs" using fm by (rule is_first_max_unique)
    qed
  qed
  show ?thesis
    using d(1,2) val uniq unfolding ones_def oh_def ow_def ph_def pw_def by blast
qed

lemma MaxPool2D_backward_first_max_example:
  "\<exists>d. MaxPool2D_backward
     \<lparr>pool_size = [2, 2], mp_stride = [2, 2], mp_padding_mode = ''VALID'',
      mp_cache = Some \<lparr>pc_in_n = 1, pc_in_img_size = (2, 2, 1), pc_stride = (2, 2),
                        pc_pad = (2, 2), pc_pool = (2, 2), pc_max_pos = [[[[1]]]],
                        pc_out_img_size = (1, 1, 1)\<rparr>\<rparr>
     [[[[1]]]] = Inr d \<and> has_shape4 1 2 2 1 d"
proof -
  have x: "has_shape4 1 2 2 1 [[[[1], [5]], [[5], [3::real]]]]"
    by (simp add: has_shape4_def)
  have p: "MaxPool2D_get_padding [int 2, int 2] [int 2, int 2] [int 2, int 2] ''VALID'' = Inr [0, 0, 0, 0]"
    by (simp add: MaxPool2D_get_padding_def MaxPool2D_get_padding_1d_def)
  have c: "np_pad_constant [0, 0, 0, 0] [[[[1], [5]], [[5], [3::real]]]] = Inr [[[[1], [5]], [[5], [3]]]]"
    by code_simp
  have f: "MaxPool2D_forward
        \<lparr>pool_size = [2, 2], mp_stride = [2, 2], mp_padding_mode = ''VALID'', mp_cache = None\<rparr>
        [[[[1], [5]], [[5], [3]]]] =
      (\<lparr>pool_size = [2, 2], mp_stride = [2, 2], mp_padding_mode = ''VALID'',
        mp_cache = Some \<lparr>pc_in_n = 1, pc_in_img_size = (2, 2, 1), pc_stride = (2, 2),
                          pc_pad = (2, 2), pc_pool = (2, 2), pc_max_pos = [[[[1]]]],
                          pc_out_img_size = (1, 1, 1)\<rparr>\<rparr>, Inr [[[[5]]]])"
    by code_simp
  show ?thesis
    using x p c f MaxPool2D_backward_first_max
      [where n = 1 and h = 2 and w = 2 and c = 1 and kh = 2 and kw = 2 and sh = 2 and sw = 2
         and pt = 0 and pb = 0 and pl = 0 and pr = 0
         and layer = "\<lparr>pool_size = [2, 2], mp_stride = [2, 2], mp_padding_mode = ''VALID'',
                        mp_cache = None\<rparr>"
         and layer' = "\<lparr>pool_size = [2, 2], mp_stride = [2, 2], mp_padding_mode = ''VALID'',
              mp_cache = Some \<lparr>pc_in_n = 1, pc_in_img_size = (2, 2, 1), pc_stride = (2, 2),
                          pc_pad = (2, 2), pc_pool = (2, 2), pc_max_pos = [[[[1]]]],
                          pc_out_img_size = (1, 1, 1)\<rparr>\<rparr>"
         and x = "[[[[1], [5]], [[5], [3]]]]" and padded = "[[[[1], [5]], [[5], [3]]]]"
         and out = "[[[[5]]]]"]
    by (auto simp: eval_nat_numeral)
qed

section \<open>Properties of the layers\<close>

subsection \<open>The padding calculators\<close>

text \<open>
  C2. In FULL mode the calculator returns \<open>[kh - 1, kw - 1, kh - 1, kw - 1]\<close>, which
  \<^verbatim>\<open>forward\<close> reads as (top, bottom, left, right): for the odd kernel 3 x 5 the
  top pad is 2 and the bottom pad is 4, not the (2, 2, 4, 4) of the claim.
\<close>

theorem C2_full_padding_3_5:
  "Conv2D_get_padding [3, 5] ''FULL'' = Inr ([], Some [2, 4, 2, 4]) \<and>
   Conv2D_get_padding [3, 5] ''FULL'' \<noteq> Inr ([], Some [3 - 1, 3 - 1, 5 - 1, 5 - 1])"
  by (simp add: Conv2D_get_padding_def)

text \<open>
  C6. For a nonzero stride, SAME pooling padding on one axis is
  \<open>r = n mod s\<close>, \<open>total = max (p - s) 0\<close> when \<open>r = 0\<close> and \<open>max p s - r\<close> otherwise, split
  into \<open>(total div 2, total div 2)\<close> when the total is even and
  \<open>(total div 2, total div 2 + 1)\<close> when it is odd, the two parts adding up to the total;
  VALID gives zero padding on one axis and on both.
\<close>

theorem C6_pool_padding:
  assumes "s \<noteq> 0"
  shows "(let r = n mod s;
              total = (if r = 0 then max (p - s) 0 else max p s - r);
              pad = (if even total then [total div 2, total div 2]
                     else [total div 2, total div 2 + 1])
          in MaxPool2D_get_padding_1d n p s ''SAME'' = Inr pad \<and> pad ! 0 + pad ! 1 = total) \<and>
         MaxPool2D_get_padding_1d n p s ''VALID'' = Inr [0, 0] \<and>
         MaxPool2D_get_padding [n, n'] [p, p'] [s, s'] ''VALID'' = Inr [0, 0, 0, 0]"
proof -
  define total where "total = (if n mod s = 0 then max (p - s) 0 else max p s - n mod s)"
  have same: "MaxPool2D_get_padding_1d n p s ''SAME'' =
          Inr (if even total then [total div 2, total div 2] else [total div 2, total div 2 + 1])"
    using assms unfolding MaxPool2D_get_padding_1d_def total_def Let_def
    by (simp only: even_iff_mod_2_eq_zero refl if_True if_False simp_thms)
  have sum: "(if even total then [total div 2, total div 2] else [total div 2, total div 2 + 1]) ! 0 +
             (if even total then [total div 2, total div 2] else [total div 2, total div 2 + 1]) ! 1 = total"
    by (cases "even total") (auto elim: evenE oddE)
  have valid: "\<And>a b c. MaxPool2D_get_padding_1d a b c ''VALID'' = Inr [0, 0]"
    unfolding MaxPool2D_get_padding_1d_def by simp
  have both: "MaxPool2D_get_padding [n, n'] [p, p'] [s, s'] ''VALID'' = Inr [0, 0, 0, 0]"
    unfolding MaxPool2D_get_padding_def by (simp add: valid)
  show ?thesis
    unfolding Let_def using same sum valid both unfolding total_def by blast
qed

theorem C6_pool_padding_witness:
  "MaxPool2D_get_padding_1d 5 3 2 ''SAME'' = Inr [1, 1] \<and>
   MaxPool2D_get_padding_1d 7 2 4 ''SAME'' = Inr [0, 1] \<and>
   MaxPool2D_get_padding_1d 5 3 2 ''VALID'' = Inr [0, 0]"
  using C6_pool_padding [of 2 5 3 0 0 0] C6_pool_padding [of 4 7 2 0 0 0]
  by (simp add: Let_def)

text \<open>
  C9 (counterexample). For the unsupported mode string \<open>CIRCULAR\<close> the calculator raises
  nothing: it prints \<open>Invalid mode\<close> and returns \<open>None\<close>.
\<close>

theorem C9_invalid_mode_returns_None:
  "Conv2D_get_padding [3, 3] ''CIRCULAR'' = Inr ([''Invalid mode''], None)"
  by (simp add: Conv2D_get_padding_def)

text \<open>
  C9 (as the code has it). For every mode string other than FULL, VALID and SAME the
  calculator prints \<open>Invalid mode\<close> and returns \<open>None\<close>, whatever the kernel size; the
  constructor of the layer refuses such a mode with a failed assertion, and a layer that
  carries one all the same raises TypeError in \<^verbatim>\<open>forward\<close>, where the \<open>None\<close> is
  subscripted.
\<close>

theorem C9_invalid_mode:
  assumes "mode \<noteq> ''FULL''" and "mode \<noteq> ''VALID''" and "mode \<noteq> ''SAME''"
  shows "Conv2D_get_padding ks mode = Inr ([''Invalid mode''], None) \<and>
         Conv2D_init kernel_arg stride_arg mode w b = Inl AssertionError"
  using assms by (simp add: Conv2D_get_padding_def Conv2D_init_def)

theorem C9_invalid_mode_witness:
  "Conv2D_get_padding [5, 5] ''REFLECT'' = Inr ([''Invalid mode''], None) \<and>
   Conv2D_init [5, 5, 1, 6] [1, 1] ''REFLECT'' (\<lambda>k. []) (\<lambda>n. []) = Inl AssertionError"
  using C9_invalid_mode [of "''REFLECT''" "[5, 5]" "[5, 5, 1, 6]" "[1, 1]" "\<lambda>k. []" "\<lambda>n. []"]
  by simp

subsection \<open>Conv2D\<close>

text \<open>
  C4. For an input of shape \<open>(n, h, w, c)\<close> with positive sizes and a layer with kernel
  \<open>[kh, kw, c, oc]\<close>, positive strides and parameters of the kernel's shape (already
  initialized, or produced by the initializers at this call): under VALID padding, when
  the kernel fits into the input, \<^verbatim>\<open>Conv2D.forward\<close> returns an output whose
  spatial sizes are \<open>(h - kh) div s_h + 1\<close> and \<open>(w - kw) div s_w + 1\<close>; under SAME padding
  with stride 1 the output has the spatial sizes \<open>h\<close> and \<open>w\<close> of the input.
\<close>

theorem C4_conv_output_size:
  assumes "has_shape4 n h w c x" and "0 < n" "0 < h" "0 < w" "0 < c"
    and "kernel layer = [kh, kw, c, oc]" and "stride layer = [sh, sw]"
    and "0 < kh" "0 < kw" "0 < oc" "0 < sh" "0 < sw"
    and "if is_init layer then params_w layer = Some kernel_w \<and> params_b layer = Some b
         else w_init layer (kernel layer) = kernel_w \<and> b_init layer oc = b"
    and "has_shape4 kh kw c oc kernel_w" and "length b = oc"
  shows "(padding_mode layer = ''VALID'' \<and> kh \<le> h \<and> kw \<le> w \<longrightarrow>
           (\<exists>out. snd (Conv2D_forward layer x) = Inr out \<and>
              has_shape4 n ((h - kh) div sh + 1) ((w - kw) div sw + 1) oc out)) \<and>
         (padding_mode layer = ''SAME'' \<and> sh = 1 \<and> sw = 1 \<longrightarrow>
           (\<exists>out. snd (Conv2D_forward layer x) = Inr out \<and> has_shape4 n h w oc out))"
proof (intro conjI impI)
  assume a: "padding_mode layer = ''VALID'' \<and> kh \<le> h \<and> kw \<le> w"
  then have pad: "Conv2D_get_padding [int kh, int kw] (padding_mode layer) = Inr ([], Some [0, 0, 0, 0])"
    by (simp add: Conv2D_get_padding_VALID)
  show "\<exists>out. snd (Conv2D_forward layer x) = Inr out \<and>
              has_shape4 n ((h - kh) div sh + 1) ((w - kw) div sw + 1) oc out"
    using Conv2D_forward_ok [OF assms(1-5,8-12,6,7,13-15) pad] a by auto
next
  assume a: "padding_mode layer = ''SAME'' \<and> sh = 1 \<and> sw = 1"
  define p0 where "p0 = (int kh - 1) div 2"
  define p1 where "p1 = (int kh - 1) div 2 + (if even (int kh) then 1 else 0)"
  define p2 where "p2 = (int kw - 1) div 2"
  define p3 where "p3 = (int kw - 1) div 2 + (if even (int kw) then 1 else 0)"
  have pad: "Conv2D_get_padding [int kh, int kw] (padding_mode layer) = Inr ([], Some [p0, p1, p2, p3])"
    using a by (simp add: Conv2D_get_padding_SAME p0_def p1_def p2_def p3_def)
  have nn: "0 \<le> p0" "0 \<le> p1" "0 \<le> p2" "0 \<le> p3"
    using assms(8,9) by (simp_all add: p0_def p1_def p2_def p3_def)
  have "p0 + p1 = int kh - 1" unfolding p0_def p1_def by presburger
  then have sh: "nat p0 + nat p1 = kh - 1" using nn by linarith
  have "p2 + p3 = int kw - 1" unfolding p2_def p3_def by presburger
  then have sw: "nat p2 + nat p3 = kw - 1" using nn by linarith
  have fit: "kh \<le> h + nat p0 + nat p1" "kw \<le> w + nat p2 + nat p3"
    using sh sw assms(3,4) by linarith+
  have e: "h + nat p0 + nat p1 - kh + 1 = h" "w + nat p2 + nat p3 - kw + 1 = w"
    using sh sw assms(3,4,8,9) by linarith+
  show "\<exists>out. snd (Conv2D_forward layer x) = Inr out \<and> has_shape4 n h w oc out"
    using Conv2D_forward_ok [OF assms(1-5,8-12,6,7,13-15) pad nn fit] a e by auto
qed

theorem C4_conv_output_size_witness:
  "(\<exists>out. snd (Conv2D_forward
        \<lparr>padding_mode = ''VALID'', kernel = [2, 2, 1, 1], stride = [2, 1],
         w_init = (\<lambda>k. [[[[1]], [[0]]], [[[0]], [[0]]]]), b_init = (\<lambda>n. replicate n 0),
         is_init = False, params_w = None, params_b = None, grads_w = None, grads_b = None,
         cache = None\<rparr>
        [[[[1], [2], [3]], [[4], [5], [6]], [[7], [8], [9]]]]) = Inr out \<and>
      has_shape4 1 1 2 1 out) \<and>
   (\<exists>out. snd (Conv2D_forward
        \<lparr>padding_mode = ''SAME'', kernel = [2, 2, 1, 1], stride = [1, 1],
         w_init = (\<lambda>k. [[[[1]], [[0]]], [[[0]], [[0]]]]), b_init = (\<lambda>n. replicate n 0),
         is_init = False, params_w = None, params_b = None, grads_w = None, grads_b = None,
         cache = None\<rparr>
        [[[[1], [2], [3]], [[4], [5], [6]], [[7], [8], [9]]]]) = Inr out \<and>
      has_shape4 1 3 3 1 out)"
proof -
  have x: "has_shape4 1 3 3 1 [[[[1], [2], [3]], [[4], [5], [6]], [[7], [8], [9::real]]]]"
    by (simp add: has_shape4_def)
  have k: "has_shape4 2 2 1 1 [[[[1]], [[0]]], [[[0]], [[0::real]]]]"
    by (simp add: has_shape4_def)
  show ?thesis
  using x k C4_conv_output_size
    [where n = 1 and h = 3 and w = 3 and c = 1 and kh = 2 and kw = 2 and oc = 1
       and sh = 2 and sw = 1 and kernel_w = "[[[[1]], [[0]]], [[[0]], [[0]]]]" and b = "[0]"
       and layer = "\<lparr>padding_mode = ''VALID'', kernel = [2, 2, 1, 1], stride = [2, 1],
         w_init = (\<lambda>k. [[[[1]], [[0]]], [[[0]], [[0]]]]), b_init = (\<lambda>n. replicate n 0),
         is_init = False, params_w = None, params_b = None, grads_w = None, grads_b = None,
         cache = None\<rparr>"
       and x = "[[[[1], [2], [3]], [[4], [5], [6]], [[7], [8], [9]]]]"]
    C4_conv_output_size
    [where n = 1 and h = 3 and w = 3 and c = 1 and kh = 2 and kw = 2 and oc = 1
       and sh = 1 and sw = 1 and kernel_w = "[[[[1]], [[0]]], [[[0]], [[0]]]]" and b = "[0]"
       and layer = "\<lparr>padding_mode = ''SAME'', kernel = [2, 2, 1, 1], stride = [1, 1],
         w_init = (\<lambda>k. [[[[1]], [[0]]], [[[0]], [[0]]]]), b_init = (\<lambda>n. replicate n 0),
         is_init = False, params_w = None, params_b = None, grads_w = None, grads_b = None,
         cache = None\<rparr>"
       and x = "[[[[1], [2], [3]], [[4], [5], [6]], [[7], [8], [9]]]]"]
  by (simp add: eval_nat_numeral)
qed

text \<open>
  C7. The layer with kernel \<open>[2, 2, 1, 1]\<close>, weights \<open>[[1, 0], [0, 0]]\<close>, bias 0, padding
  VALID and stride \<open>(1, 1)\<close>, on the 1 x 3 x 3 x 1 input holding 1..9 in row-major order,
  returns the 1 x 2 x 2 x 1 output \<open>[[1, 2], [4, 5]]\<close>.
\<close>

theorem C7_conv_example:
  "bindE (Conv2D_init [2, 2, 1, 1] [1, 1] ''VALID''
            (\<lambda>k. [[[[1]], [[0]]], [[[0]], [[0]]]]) (\<lambda>n. replicate n 0))
     (\<lambda>layer. snd (Conv2D_forward layer
                     [[[[1], [2], [3]], [[4], [5], [6]], [[7], [8], [9]]]]))
   = Inr [[[[1], [2]], [[4], [5]]]]"
  by code_simp

text \<open>
  C1. Take an input of shape \<open>(n, h, w, c)\<close> with positive sizes and a layer with kernel
  \<open>[kh, kw, c, oc]\<close>, positive strides, a supported padding mode with pad list
  \<open>[pt, pb, pl, pr]\<close> (under VALID the kernel fits into the input) and parameters of the
  kernel's shape. Then \<^verbatim>\<open>forward\<close> succeeds and fills the cache, and
  \<^verbatim>\<open>backward\<close> on a gradient of the cached output shape succeeds: with
  \<open>d_X = grad @ W_matrix.T\<close>, the returned tensor has the input shape \<open>(n, h, w, c)\<close>,
  and its entry \<open>(b, y, x, ch)\<close> is the entry \<open>(b, y + pt, x + pl, ch)\<close> of the padded
  buffer, that is the sum over all output positions whose receptive field contains that
  cell of the matching entry of the reshaped slice of \<open>d_X\<close>: the slices are accumulated
  into a zero buffer and the buffer is cropped by the cached pad list.
\<close>

theorem C1_conv_backward_adjoint:
  assumes "has_shape4 n h w c x" and "0 < n" "0 < h" "0 < w" "0 < c"
    and "kernel layer = [kh, kw, c, oc]" and "stride layer = [sh, sw]"
    and "0 < kh" "0 < kw" "0 < oc" "0 < sh" "0 < sw"
    and "if is_init layer then params_w layer = Some kernel_w \<and> params_b layer = Some bias
         else w_init layer (kernel layer) = kernel_w \<and> b_init layer oc = bias"
    and "has_shape4 kh kw c oc kernel_w" and "length bias = oc"
    and "Conv2D_get_padding [int kh, int kw] (padding_mode layer) = Inr (printed, Some [pt, pb, pl, pr])"
    and "padding_mode layer = ''VALID'' \<longrightarrow> kh \<le> h \<and> kw \<le> w"
    and "has_shape4 n ((h + nat pt + nat pb - kh) div sh + 1)
           ((w + nat pl + nat pr - kw) div sw + 1) oc grad"
  shows "\<exists>layer' out cc layer'' d_X d_in.
           Conv2D_forward layer x = (layer', Inr out) \<and>
           has_shape4 n ((h + nat pt + nat pb - kh) div sh + 1)
             ((w + nat pl + nat pr - kw) div sw + 1) oc out \<and>
           cache layer' = Some cc \<and> cc_pad cc = [pt, pb, pl, pr] \<and>
           matmul4 grad (transpose_m (cc_W_matrix cc)) = Inr d_X \<and>
           Conv2D_backward layer' grad = (layer'', Inr d_in) \<and>
           has_shape4 n h w c d_in \<and>
           (\<forall>b<n. \<forall>y<h. \<forall>x<w. \<forall>ch<c.
              d_in ! b ! y ! x ! ch =
                scatter_add_value kh kw sh sw c
                  ((h + nat pt + nat pb - kh) div sh + 1) ((w + nat pl + nat pr - kw) div sw + 1)
                  d_X b (y + nat pt) (x + nat pl) ch)"
proof -
  define ph where "ph = h + nat pt + nat pb"
  define pw where "pw = w + nat pl + nat pr"
  define oh where "oh = (ph - kh) div sh + 1"
  define ow where "ow = (pw - kw) div sw + 1"
  note P = conv_padding_props [OF assms(8,9,16)]
  have nn: "0 \<le> pt" "0 \<le> pb" "0 \<le> pl" "0 \<le> pr" using P by simp_all
  have fit: "kh \<le> h + nat pt + nat pb" "kw \<le> w + nat pl + nat pr"
    using P assms(3,4,17) by (cases "padding_mode layer = ''VALID''"; simp)+
  obtain layer' X W out where F:
    "Conv2D_forward layer x = (layer', Inr out)"
    "has_shape4 n ((h + nat pt + nat pb - kh) div sh + 1) ((w + nat pl + nat pr - kw) div sw + 1) oc out"
    "params_w layer' = Some kernel_w"
    "cache layer' =
       Some \<lparr>cc_in_n = n, cc_in_img_size = (h, w, c), cc_kernel_size = (kh, kw, c),
             cc_stride = (sh, sw), cc_pad = [pt, pb, pl, pr],
             cc_pad_img_size = (h + nat pt + nat pb, w + nat pl + nat pr, c),
             cc_out_img_size = (int ((h + nat pt + nat pb - kh) div sh + 1),
                                int ((w + nat pl + nat pr - kw) div sw + 1), oc),
             cc_X_matrix = X, cc_W_matrix = W\<rparr>"
    "has_shape2 (n * ((h + nat pt + nat pb - kh) div sh + 1) * ((w + nat pl + nat pr - kw) div sw + 1))
       (kh * kw * c) X"
    "has_shape2 (kh * kw * c) oc W"
    using Conv2D_forward_ok [OF assms(1-5,8-12,6,7,13-16) nn fit] by blast
  note F' = F [folded ph_def pw_def, folded oh_def ow_def]
  obtain layer'' d_X d_in where B:
    "matmul4 grad (transpose_m W) = Inr d_X"
    "Conv2D_backward layer' grad = (layer'', Inr d_in)"
    "has_shape4 n h w c d_in"
    "\<forall>b<n. \<forall>y<h. \<forall>x<w. \<forall>ch<c.
        d_in ! b ! y ! x ! ch = scatter_add_value kh kw sh sw c oh ow d_X b (y + nat pt) (x + nat pl) ch"
    using Conv2D_backward_ok [OF F'(4) ph_def pw_def oh_def ow_def F'(3) assms(14) F'(5,6)
        assms(18) [folded ph_def pw_def, folded oh_def ow_def] assms(2,5,8,9,10,11,12) nn
        fit [folded ph_def pw_def]]
    by blast
  show ?thesis
    using F(1,2,4) B unfolding oh_def ow_def ph_def pw_def by auto
qed

theorem C1_conv_backward_adjoint_witness:
  "\<exists>layer'' d_in.
     Conv2D_backward
       (fst (Conv2D_forward
          \<lparr>padding_mode = ''SAME'', kernel = [2, 2, 1, 1], stride = [1, 1],
           w_init = (\<lambda>k. [[[[1]], [[0]]], [[[0]], [[0]]]]), b_init = (\<lambda>n. replicate n 0),
           is_init = False, params_w = None, params_b = None, grads_w = None, grads_b = None,
           cache = None\<rparr>
          [[[[1], [2], [3]], [[4], [5], [6]], [[7], [8], [9]]]]))
       [[[[1], [1], [1]], [[1], [1], [1]], [[1], [1], [1]]]] = (layer'', Inr d_in) \<and>
     has_shape4 1 3 3 1 d_in"
proof -
  have x: "has_shape4 1 3 3 1 [[[[1], [2], [3]], [[4], [5], [6]], [[7], [8], [9::real]]]]"
    by (simp add: has_shape4_def)
  have k: "has_shape4 2 2 1 1 [[[[1]], [[0]]], [[[0]], [[0::real]]]]"
    by (simp add: has_shape4_def)
  have g: "has_shape4 1 3 3 1 [[[[1], [1], [1]], [[1], [1], [1]], [[1], [1], [1::real]]]]"
    by (simp add: has_shape4_def)
  have p: "Conv2D_get_padding [int 2, int 2] ''SAME'' = Inr ([], Some [0, 1, 0, 1])"
    by (simp add: Conv2D_get_padding_def)
  show ?thesis
    using x k g p C1_conv_backward_adjoint
      [where n = 1 and h = 3 and w = 3 and c = 1 and kh = 2 and kw = 2 and oc = 1
         and sh = 1 and sw = 1 and kernel_w = "[[[[1]], [[0]]], [[[0]], [[0]]]]" and bias = "[0]"
         and pt = 0 and pb = 1 and pl = 0 and pr = 1 and printed = "[]"
         and grad = "[[[[1], [1], [1]], [[1], [1], [1]], [[1], [1], [1]]]]"
         and layer = "\<lparr>padding_mode = ''SAME'', kernel = [2, 2, 1, 1], stride = [1, 1],
           w_init = (\<lambda>k. [[[[1]], [[0]]], [[[0]], [[0]]]]), b_init = (\<lambda>n. replicate n 0),
           is_init = False, params_w = None, params_b = None, grads_w = None, grads_b = None,
           cache = None\<rparr>"
         and x = "[[[[1], [2], [3]], [[4], [5], [6]], [[7], [8], [9]]]]"]
    by (auto simp: eval_nat_numeral)
qed

subsection \<open>MaxPool2D\<close>

text \<open>
  C10. For an input of shape \<open>(n, h, w, c)\<close> with positive sizes, and a layer with positive
  pool sizes and strides whose padding calculator returns \<open>[t, b, l, r]\<close>,
  \<^verbatim>\<open>MaxPool2D.forward\<close> returns an output exactly when the padded height
  \<open>h + t + b\<close> and the padded width \<open>w + l + r\<close> are divisible by the strides; the output
  then has the spatial sizes \<open>padded_h div s_h\<close> and \<open>padded_w div s_w\<close>, whatever the pool
  size. When a padded size is not divisible by its stride, \<^verbatim>\<open>forward\<close> raises
  ValueError and leaves the layer without a cache.
\<close>

theorem C10_pool_forward_divisible:
  assumes "has_shape4 n h w c x" and "0 < n" "0 < h" "0 < w" "0 < c"
    and "pool_size layer = [kh, kw]" and "mp_stride layer = [sh, sw]"
    and "0 < kh" "0 < kw" "0 < sh" "0 < sw"
    and "MaxPool2D_get_padding [int h, int w] [int kh, int kw] [int sh, int sw]
           (mp_padding_mode layer) = Inr [t, b, l, r]"
  shows "if sh dvd (h + nat t + nat b) \<and> sw dvd (w + nat l + nat r)
         then \<exists>out. snd (MaxPool2D_forward layer x) = Inr out \<and>
                has_shape4 n ((h + nat t + nat b) div sh) ((w + nat l + nat r) div sw) c out
         else MaxPool2D_forward layer x = (layer, Inl ValueError)"
proof -
  have sx: "shape4 x = (n, h, w, c)" using assms(1-4) by (rule shape4_has_shape4)
  have nonneg: "0 \<le> t" "0 \<le> b" "0 \<le> l" "0 \<le> r"
    using pool_padding_nonneg [of sh sw "int h" "int w" "int kh" "int kw" "mp_padding_mode layer"]
      assms(10-12) by auto
  obtain padded where pd: "np_pad_constant [t, b, l, r] x = Inr padded"
    "has_shape4 n (h + nat t + nat b) (w + nat l + nat r) c padded"
    using np_pad_constant_shape [OF assms(1-4) nonneg] by blast
  have ph: "0 < h + nat t + nat b" "0 < w + nat l + nat r" using assms by simp_all
  note sized = MaxPool2D_forward_sized_eq [OF assms(1) pd(2) assms(2-5) ph assms(10,11,8,9)]
  show ?thesis
  proof (cases "sh dvd (h + nat t + nat b) \<and> sw dvd (w + nat l + nat r)")
    case True
    then obtain cc out where "MaxPool2D_forward_sized x padded sh sw kh kw = Inr (cc, out)"
      "has_shape4 n ((h + nat t + nat b) div sh) ((w + nat l + nat r) div sw) c out"
      using sized(1) by blast
    then show ?thesis
      using True assms(6,7,12) pd(1) by (simp add: MaxPool2D_forward_def sx)
  next
    case False
    then have "MaxPool2D_forward_sized x padded sh sw kh kw = Inl ValueError"
      using sized(2) by blast
    then show ?thesis
      using False assms(6,7,12) pd(1) by (simp add: MaxPool2D_forward_def sx)
  qed
qed

theorem C10_pool_forward_divisible_witness:
  "(\<exists>out. snd (MaxPool2D_forward
        \<lparr>pool_size = [3, 3], mp_stride = [2, 2], mp_padding_mode = ''VALID'', mp_cache = None\<rparr>
        [[[[1], [2], [3], [4]], [[5], [6], [7], [8]],
          [[9], [10], [11], [12]], [[13], [14], [15], [16]]]]) = Inr out \<and>
      has_shape4 1 2 2 1 out) \<and>
   MaxPool2D_forward
     \<lparr>pool_size = [2, 2], mp_stride = [2, 2], mp_padding_mode = ''VALID'', mp_cache = None\<rparr>
     [[[[1], [2], [3]], [[4], [5], [6]], [[7], [8], [9]]]]
   = (\<lparr>pool_size = [2, 2], mp_stride = [2, 2], mp_padding_mode = ''VALID'', mp_cache = None\<rparr>,
      Inl ValueError)"
proof -
  have x4: "has_shape4 1 4 4 1 [[[[1], [2], [3], [4]], [[5], [6], [7], [8]],
          [[9], [10], [11], [12]], [[13], [14], [15], [16::real]]]]"
    by (simp add: has_shape4_def)
  have x3: "has_shape4 1 3 3 1 [[[[1], [2], [3]], [[4], [5], [6]], [[7], [8], [9::real]]]]"
    by (simp add: has_shape4_def)
  show ?thesis
  using x3 x4 C10_pool_forward_divisible
    [where n = 1 and h = 4 and w = 4 and c = 1 and kh = 3 and kw = 3 and sh = 2 and sw = 2
       and t = 0 and b = 0 and l = 0 and r = 0
       and layer = "\<lparr>pool_size = [3, 3], mp_stride = [2, 2], mp_padding_mode = ''VALID'',
                      mp_cache = None\<rparr>"
       and x = "[[[[1], [2], [3], [4]], [[5], [6], [7], [8]],
                 [[9], [10], [11], [12]], [[13], [14], [15], [16]]]]"]
    C10_pool_forward_divisible
    [where n = 1 and h = 3 and w = 3 and c = 1 and kh = 2 and kw = 2 and sh = 2 and sw = 2
       and t = 0 and b = 0 and l = 0 and r = 0
       and layer = "\<lparr>pool_size = [2, 2], mp_stride = [2, 2], mp_padding_mode = ''VALID'',
                      mp_cache = None\<rparr>"
       and x = "[[[[1], [2], [3]], [[4], [5], [6]], [[7], [8], [9]]]]"]
  by (simp add: MaxPool2D_get_padding_def MaxPool2D_get_padding_1d_def)
qed

text \<open>
  C3. A SAME pooling layer with pool size \<open>(2, 2)\<close> and stride \<open>(2, 2)\<close> pads the
  1 x 3 x 3 x 1 input to 4 x 4; \<^verbatim>\<open>backward\<close> on the all-ones gradient of the output
  shape 1 x 2 x 2 x 1 returns the 1 x 4 x 4 x 1 buffer, not a tensor of the input shape.
\<close>

theorem C3_pool_backward_not_cropped:
  "bindE (MaxPool2D_init [2, 2] [2, 2] ''SAME'')
     (\<lambda>layer. MaxPool2D_backward
        (fst (MaxPool2D_forward layer [[[[1], [2], [3]], [[4], [5], [6]], [[7], [8], [9]]]]))
        [[[[1], [1]], [[1], [1]]]])
   = Inr [[[[0], [0], [0], [0]], [[0], [1], [1], [0]], [[0], [1], [1], [0]], [[0], [0], [0], [0]]]]"
  by code_simp

text \<open>
  C5. A pooling layer with pool size \<open>(2, 2)\<close> and stride \<open>(1, 1)\<close> is accepted by the
  constructor, and \<^verbatim>\<open>forward\<close> on the 1 x 2 x 2 x 1 input 1..4 returns the four window
  maxima (every window, also those cut short at the border, has a single maximum, the
  value 4). \<^verbatim>\<open>backward\<close> on the all-ones gradient of that output's shape raises
  ValueError when it assigns a full 2 x 2 block to a window cut short by the border: no
  tensor is returned, so no gradient reaches the maximum of any window.
\<close>

theorem C5_overlapping_windows_raise:
  "bindE (MaxPool2D_init [2, 2] [1, 1] ''VALID'')
     (\<lambda>layer. snd (MaxPool2D_forward layer [[[[1], [2]], [[3], [4]]]]))
   = Inr [[[[4], [4]], [[4], [4]]]] \<and>
   bindE (MaxPool2D_init [2, 2] [1, 1] ''VALID'')
     (\<lambda>layer. MaxPool2D_backward
        (fst (MaxPool2D_forward layer [[[[1], [2]], [[3], [4]]]]))
        [[[[1], [1]], [[1], [1]]]])
   = Inl ValueError"
  by code_simp

subsection \<open>Backward and the cache\<close>

text \<open>
  C8 (counterexample). After \<^verbatim>\<open>forward\<close> on a 1 x 4 x 4 x 1 input the cached output
  shape of the pooling layer is 1 x 2 x 2 x 1; \<^verbatim>\<open>backward\<close> on a gradient of shape
  1 x 3 x 3 x 1 raises nothing and returns a tensor.
\<close>

theorem C8_wrong_shape_accepted:
  "bindE (MaxPool2D_init [2, 2] [2, 2] ''VALID'')
     (\<lambda>layer. MaxPool2D_backward
        (fst (MaxPool2D_forward layer
           [[[[1], [2], [3], [4]], [[5], [6], [7], [8]],
             [[9], [10], [11], [12]], [[13], [14], [15], [16]]]]))
        [[[[1], [1], [1]], [[1], [1], [1]], [[1], [1], [1]]]])
   = Inr [[[[0], [0], [0], [0]], [[0], [1], [0], [1]], [[0], [0], [0], [0]], [[0], [1], [0], [1]]]]"
  by code_simp

text \<open>
  C8 (as the code has it). \<^verbatim>\<open>backward\<close> on a layer whose cache is empty, as it is
  before the first \<^verbatim>\<open>forward\<close>, raises TypeError for every gradient: Conv2D leaves
  the layer as it was, and neither layer returns a tensor.
\<close>

theorem C8_backward_without_forward:
  assumes "cache conv = None" and "mp_cache pool = None"
  shows "Conv2D_backward conv grad = (conv, Inl TypeError) \<and>
         MaxPool2D_backward pool grad = Inl TypeError"
  using assms by (simp add: Conv2D_backward_def MaxPool2D_backward_def)

theorem C8_backward_without_forward_witness:
  "bindE (Conv2D_init [2, 2, 1, 1] [1, 1] ''VALID'' (\<lambda>k. []) (\<lambda>n. []))
     (\<lambda>layer. snd (Conv2D_backward layer [[[[1]]]])) = Inl TypeError \<and>
   bindE (MaxPool2D_init [2, 2] [2, 2] ''VALID'') (\<lambda>layer. MaxPool2D_backward layer [[[[1]]]])
     = Inl TypeError"
  using C8_backward_without_forward
    [of "\<lparr>padding_mode = ''VALID'', kernel = [2, 2, 1, 1], stride = [1, 1],
          w_init = (\<lambda>k. []), b_init = (\<lambda>n. []), is_init = False,
          params_w = None, params_b = None, grads_w = None, grads_b = None, cache = None\<rparr>"
        "\<lparr>pool_size = [2, 2], mp_stride = [2, 2], mp_padding_mode = ''VALID'', mp_cache = None\<rparr>"
        "[[[[1]]]]"]
  by (simp add: Conv2D_init_def MaxPool2D_init_def bindE_def)

end
